theory Spec2Isabelle
  imports Complex_Main "HOL-Library.Word"
begin

section \<open>Composition polynomial: degrees and constraint groups\<close>

text \<open>
  The declared transition constraints of the AIR: the composition polynomial reads only
  their \<open>degree\<close> field. Degrees and the trace length are JavaScript numbers holding
  non-negative integers; they are modelled as unbounded naturals.
\<close>

record constraint =
  degree :: nat

text \<open>
  \<open>Math.ceil(Math.log2(n))\<close> for an integer \<open>n \<ge> 1\<close>, computed on integers: the least
  \<open>k\<close> with \<open>n \<le> 2 ^ k\<close>. The floating-point logarithm of the source is idealised as the
  exact one (lemma \<open>ceilLog2_real\<close> below).
\<close>

fun ceilLog2 :: "nat \<Rightarrow> nat" where
  "ceilLog2 n = (if n \<le> 1 then 0 else Suc (ceilLog2 ((n + 1) div 2)))"

declare ceilLog2.simps [simp del]

text \<open>The loop of \<open>getCombinationDegree\<close>: the running maximum starts at 1.\<close>

fun maxConstraintDegree :: "nat \<Rightarrow> constraint list \<Rightarrow> nat" where
  "maxConstraintDegree m [] = m"
| "maxConstraintDegree m (c # cs) =
     maxConstraintDegree (if m < degree c then degree c else m) cs"

definition getCombinationDegree :: "constraint list \<Rightarrow> nat \<Rightarrow> nat" where
  "getCombinationDegree constraints traceLength =
     2 ^ ceilLog2 (maxConstraintDegree 1 constraints) * traceLength"

text \<open>
  \<open>Math.max(combinationDegree - traceLength, traceLength)\<close>: the subtraction is done on
  integers, where it may be negative, before the maximum is taken.
\<close>

definition getCompositionDegree :: "nat \<Rightarrow> nat \<Rightarrow> nat" where
  "getCompositionDegree combDegree traceLength =
     nat (max (int combDegree - int traceLength) (int traceLength))"

text \<open>
  \<open>groupTransitionConstraints\<close> keeps a JavaScript \<open>Map\<close> from degree to the array of
  constraint indexes. A \<open>Map\<close> iterates in insertion order, so it is an association list
  to which a new key is added at the end; \<open>group.push(i)\<close> appends to the group found.
\<close>

type_synonym constraintGroup = "nat \<times> nat list"

fun pushToGroup :: "nat \<Rightarrow> nat \<Rightarrow> constraintGroup list \<Rightarrow> constraintGroup list" where
  "pushToGroup d i [] = [(d, [i])]"
| "pushToGroup d i ((k, g) # rest) =
     (if k = d then (k, g @ [i]) # rest else (k, g) # pushToGroup d i rest)"

fun groupLoop :: "nat \<Rightarrow> nat \<Rightarrow> constraint list \<Rightarrow> constraintGroup list \<Rightarrow> constraintGroup list" where
  "groupLoop traceLength i [] groups = groups"
| "groupLoop traceLength i (c # cs) groups =
     groupLoop traceLength (Suc i) cs (pushToGroup (degree c * traceLength) i groups)"

definition groupTransitionConstraints :: "constraint list \<Rightarrow> nat \<Rightarrow> constraintGroup list" where
  "groupTransitionConstraints constraints traceLength = groupLoop traceLength 0 constraints []"

text \<open>
  An assertion of the caller. \<open>BoundaryConstraints\<close> is not part of the sources at hand;
  the constructor below reads only its \<open>count\<close>.
\<close>

record 'f assertion =
  register :: nat
  step :: nat
  "value" :: 'f

text \<open>
  Modelled from the spec: \<open>BoundaryConstraints.count\<close>, whose class is missing from the
  sources. Section 4.5 keeps "the boundary polynomial count equal to the number of
  registers with assertions, not the number of assertions".
\<close>

definition boundaryCount :: "'f assertion list \<Rightarrow> nat" where
  "boundaryCount assertions = length (remdups (map register assertions))"

text \<open>The loop of the constructor that counts the coefficients of the transition part.\<close>

fun dCoefficientCount :: "nat \<Rightarrow> constraintGroup list \<Rightarrow> nat \<Rightarrow> nat" where
  "dCoefficientCount combDegree [] n = n"
| "dCoefficientCount combDegree ((d, indexes) # groups) n =
     dCoefficientCount combDegree groups (if d < combDegree then n + length indexes else n)"

definition bCoefficientCount :: "nat \<Rightarrow> nat \<Rightarrow> nat \<Rightarrow> nat" where
  "bCoefficientCount count compDegree traceLength =
     (if compDegree > traceLength then count * 2 else count)"

text \<open>
  The fields of a \<open>CompositionPolynomial\<close> object that the constructor computes. The
  pseudo-random generator \<open>field.prng(seed, n)\<close> belongs to the field library and is a
  parameter; \<open>slice(0, d)\<close> and \<open>slice(d)\<close> are \<open>take d\<close> and \<open>drop d\<close>.
\<close>

record 'f compositionPolynomial =
  combinationDegree :: nat
  compositionDegree :: nat
  constraintGroups :: "constraintGroup list"
  bPolyCount :: nat
  dCoefficients :: "'f list"
  bCoefficients :: "'f list"

definition newCompositionPolynomial ::
  "('s \<Rightarrow> nat \<Rightarrow> 'f list) \<Rightarrow> constraint list \<Rightarrow> 'f assertion list \<Rightarrow> 's \<Rightarrow> nat
     \<Rightarrow> 'f compositionPolynomial" where
  "newCompositionPolynomial prng constraints assertions seed traceLength =
     (let combDegree = getCombinationDegree constraints traceLength;
          compDegree = getCompositionDegree combDegree traceLength;
          groups = groupTransitionConstraints constraints traceLength;
          dCount = dCoefficientCount combDegree groups (length constraints);
          bCount = bCoefficientCount (boundaryCount assertions) compDegree traceLength;
          coefficients = prng seed (dCount + bCount)
      in \<lparr> combinationDegree = combDegree,
           compositionDegree = compDegree,
           constraintGroups = groups,
           bPolyCount = boundaryCount assertions,
           dCoefficients = take dCount coefficients,
           bCoefficients = drop dCount coefficients \<rparr>)"

text \<open>
  Errors as values: the \<open>TypeError\<close>, \<open>RangeError\<close> and \<open>SyntaxError\<close> of the JavaScript
  runtime, and the four errors that the size computation throws, with the length that
  their messages report.
\<close>

datatype error =
    TypeError
  | RangeError
  | SyntaxError
  | ArrayZeroLength
  | ArrayTooLong nat
  | MatrixTooWide nat
  | MatrixColumnTooLong nat

text \<open>
  The degree adjustment of \<open>evaluateAt\<close>: for every group whose degree differs from the
  combination degree, each constraint of the group gets a second entry, its value times
  \<open>x\<close> to the missing degree. \<open>qValues[i]\<close> beyond the end of the array is \<open>undefined\<close>,
  on which the field multiplication throws. The field operations are parameters.
\<close>

fun pushAdjusted :: "('a \<Rightarrow> 'b \<Rightarrow> 'a) \<Rightarrow> 'b \<Rightarrow> nat list \<Rightarrow> 'a list \<Rightarrow> error + 'a list" where
  "pushAdjusted fmul pwr [] qValues = Inr qValues"
| "pushAdjusted fmul pwr (i # indexes) qValues =
     (if i < length qValues
      then pushAdjusted fmul pwr indexes (qValues @ [fmul (qValues ! i) pwr])
      else Inl TypeError)"

fun adjustAt ::
  "('f \<Rightarrow> int \<Rightarrow> 'f) \<Rightarrow> ('f \<Rightarrow> 'f \<Rightarrow> 'f) \<Rightarrow> nat \<Rightarrow> 'f \<Rightarrow> constraintGroup list \<Rightarrow> 'f list
     \<Rightarrow> error + 'f list" where
  "adjustAt fexp fmul combDegree x [] qValues = Inr qValues"
| "adjustAt fexp fmul combDegree x ((d, indexes) # groups) qValues =
     (if d = combDegree then adjustAt fexp fmul combDegree x groups qValues
      else case pushAdjusted fmul (fexp x (int combDegree - int d)) indexes qValues of
             Inl e \<Rightarrow> Inl e
           | Inr qValues' \<Rightarrow> adjustAt fexp fmul combDegree x groups qValues')"

text \<open>
  The same loop in \<open>evaluateAll\<close>, on vectors over the composition domain: the factor is
  the pwr series of \<open>compositionRou\<close> to the missing degree.
\<close>

fun adjustAll ::
  "('f \<Rightarrow> int \<Rightarrow> 'f) \<Rightarrow> ('f \<Rightarrow> nat \<Rightarrow> 'v) \<Rightarrow> ('v \<Rightarrow> 'v \<Rightarrow> 'v) \<Rightarrow> nat \<Rightarrow> 'f \<Rightarrow> nat
     \<Rightarrow> constraintGroup list \<Rightarrow> 'v list \<Rightarrow> error + 'v list" where
  "adjustAll fexp getPowerSeries mulVectorElements combDegree compositionRou domainLength []
     qaEvaluations = Inr qaEvaluations"
| "adjustAll fexp getPowerSeries mulVectorElements combDegree compositionRou domainLength
     ((d, indexes) # groups) qaEvaluations =
     (if d = combDegree
      then adjustAll fexp getPowerSeries mulVectorElements combDegree compositionRou
             domainLength groups qaEvaluations
      else case pushAdjusted mulVectorElements
                  (getPowerSeries (fexp compositionRou (int combDegree - int d)) domainLength)
                  indexes qaEvaluations of
             Inl e \<Rightarrow> Inl e
           | Inr qaEvaluations' \<Rightarrow>
               adjustAll fexp getPowerSeries mulVectorElements combDegree compositionRou
                 domainLength groups qaEvaluations')"

text \<open>
  The invariant of the grouping loop after \<open>n\<close> constraints: keys are distinct, the groups
  hold exactly the indexes below \<open>n\<close>, once each, no group is empty, and a group's key is
  the degree of each of its constraints times the trace length.
\<close>

definition groupsOf :: "nat \<Rightarrow> constraint list \<Rightarrow> nat \<Rightarrow> constraintGroup list \<Rightarrow> bool" where
  "groupsOf traceLength constraints n groups \<longleftrightarrow>
     distinct (map fst groups) \<and> distinct (concat (map snd groups))
     \<and> set (concat (map snd groups)) = {..<n} \<and> [] \<notin> set (map snd groups)
     \<and> list_all (\<lambda>(d, indexes). list_all (\<lambda>j. degree (constraints ! j) * traceLength = d) indexes)
          groups"


subsection \<open>The integer logarithm\<close>

lemma ceilLog2_upper: "n \<le> 2 ^ ceilLog2 n"
proof (induction n rule: ceilLog2.induct)
  case (1 n)
  show ?case
  proof (cases "n \<le> 1")
    case True
    then show ?thesis by (simp add: ceilLog2.simps)
  next
    case False
    then have "(n + 1) div 2 \<le> 2 ^ ceilLog2 ((n + 1) div 2)"
      using 1 by simp
    then have "n \<le> 2 * 2 ^ ceilLog2 ((n + 1) div 2)" by linarith
    with False show ?thesis by (subst ceilLog2.simps) simp
  qed
qed

lemma ceilLog2_lower: "1 < n \<Longrightarrow> 2 ^ (ceilLog2 n - 1) < n"
proof (induction n rule: ceilLog2.induct)
  case (1 n)
  let ?h = "(n + 1) div 2"
  have eq: "ceilLog2 n = Suc (ceilLog2 ?h)"
    using "1.prems" by (subst ceilLog2.simps) simp
  show ?case
  proof (cases "1 < ?h")
    case True
    then have "2 ^ (ceilLog2 ?h - 1) < ?h"
      using 1 by simp
    moreover have "0 < ceilLog2 ?h"
      using True by (subst ceilLog2.simps) simp
    ultimately have "2 ^ ceilLog2 ?h < 2 * ?h"
      by (cases "ceilLog2 ?h") simp_all
    then have "2 ^ ceilLog2 ?h < n + 1" by linarith
    moreover have "even ((2::nat) ^ ceilLog2 ?h)"
      using \<open>0 < ceilLog2 ?h\<close> by simp
    moreover have "2 ^ ceilLog2 ?h \<noteq> n"
    proof
      assume "2 ^ ceilLog2 ?h = n"
      then have "even n" using \<open>even ((2::nat) ^ ceilLog2 ?h)\<close> by simp
      then have "2 * ?h = n" by (elim evenE) simp
      with \<open>2 ^ ceilLog2 ?h < 2 * ?h\<close> \<open>2 ^ ceilLog2 ?h = n\<close> show False by simp
    qed
    ultimately show ?thesis using eq by simp
  next
    case False
    then have "?h \<le> 1" by simp
    then have "ceilLog2 ?h = 0" by (subst ceilLog2.simps) simp
    then show ?thesis using eq "1.prems" by simp
  qed
qed

lemma ceilLog2_real: "1 \<le> n \<Longrightarrow> int (ceilLog2 n) = \<lceil>log 2 (real n)\<rceil>"
proof (cases "n = 1")
  case True
  then show ?thesis by (simp add: ceilLog2.simps)
next
  case False
  assume "1 \<le> n"
  with False have n: "1 < n" by simp
  have pos: "0 < ceilLog2 n" using n by (subst ceilLog2.simps) simp
  have lo: "real (ceilLog2 n - 1) < log 2 (real n)"
    using ceilLog2_lower [OF n] by (simp add: less_log2_of_power)
  have hi: "log 2 (real n) \<le> real (ceilLog2 n)"
    using ceilLog2_upper [of n] n by (simp add: log2_of_power_le)
  show ?thesis
    by (rule sym, rule ceiling_unique) (use lo hi pos in \<open>simp_all add: of_nat_diff\<close>)
qed

subsection \<open>The largest declared degree\<close>

lemma maxConstraintDegree_Max:
  "maxConstraintDegree m cs = Max (insert m (degree ` set cs))"
proof (induction cs arbitrary: m)
  case Nil
  show ?case by simp
next
  case (Cons c cs)
  have "Max (insert m (insert (degree c) (degree ` set cs)))
      = Max (insert (max m (degree c)) (degree ` set cs))"
    by (cases "set cs = {}") (simp_all add: max.assoc)
  then show ?case using Cons [of "if m < degree c then degree c else m"]
    by (simp add: max_def insert_commute not_less)
qed

lemma maxConstraintDegree_one:
  assumes "cs \<noteq> []" "\<forall>c\<in>set cs. 1 \<le> degree c"
  shows "maxConstraintDegree 1 cs = Max (degree ` set cs)"
proof -
  have ne: "degree ` set cs \<noteq> {}" using assms(1) by simp
  obtain c where "c \<in> set cs" using assms(1) by (cases cs) auto
  then have "1 \<le> Max (degree ` set cs)"
    using assms(2) by (meson List.finite_set Max_ge_iff finite_imageI imageI ne)
  then show ?thesis
    using ne by (simp add: maxConstraintDegree_Max max_def)
qed

lemma maxConstraintDegree_pos: "1 \<le> m \<Longrightarrow> 1 \<le> maxConstraintDegree m cs"
  by (induction cs arbitrary: m) auto

subsection \<open>Degrees set by the constructor\<close>

text \<open>
  Claim C3. For a non-empty constraint list (declared degrees are at least 1) and any trace
  length \<open>T\<close>, the constructor sets the combination degree to
  \<open>2 ^ \<lceil>log\<^sub>2 d\<rceil> * T\<close>, where \<open>d\<close> is the largest declared degree, and the
  composition degree to \<open>max (combinationDegree - T) T\<close>, which is never below \<open>T\<close>.
\<close>

theorem composition_degrees:
  assumes "constraints \<noteq> []" "\<forall>c\<in>set constraints. 1 \<le> degree c"
  shows "combinationDegree (newCompositionPolynomial prng constraints assertions seed T)
           = 2 ^ nat \<lceil>log 2 (real (Max (degree ` set constraints)))\<rceil> * T
       \<and> int (compositionDegree (newCompositionPolynomial prng constraints assertions seed T))
           = max (int (combinationDegree
                   (newCompositionPolynomial prng constraints assertions seed T)) - int T) (int T)
       \<and> T \<le> compositionDegree (newCompositionPolynomial prng constraints assertions seed T)"
proof -
  let ?m = "Max (degree ` set constraints)"
  let ?cp = "newCompositionPolynomial prng constraints assertions seed T"
  have m: "maxConstraintDegree 1 constraints = ?m"
    using assms by (rule maxConstraintDegree_one)
  have "1 \<le> ?m" using maxConstraintDegree_pos [of 1 constraints] m by simp
  then have "ceilLog2 ?m = nat \<lceil>log 2 (real ?m)\<rceil>"
    using ceilLog2_real [of ?m] by linarith
  then have cd: "combinationDegree ?cp = 2 ^ nat \<lceil>log 2 (real ?m)\<rceil> * T"
    unfolding newCompositionPolynomial_def Let_def getCombinationDegree_def m by simp
  have comp: "compositionDegree ?cp
      = nat (max (int (combinationDegree ?cp) - int T) (int T))"
    unfolding newCompositionPolynomial_def Let_def getCompositionDegree_def by simp
  have "0 \<le> max (int (combinationDegree ?cp) - int T) (int T)"
    by (rule max.coboundedI2) simp
  then have "int (compositionDegree ?cp) = max (int (combinationDegree ?cp) - int T) (int T)"
    unfolding comp by (rule nat_0_le)
  moreover from this have "T \<le> compositionDegree ?cp" by linarith
  ultimately show ?thesis using cd by blast
qed

theorem composition_degrees_witness:
  "combinationDegree (newCompositionPolynomial (\<lambda>s n. replicate n (0::int))
        [\<lparr>degree = 1\<rparr>, \<lparr>degree = 2\<rparr>] [] () 8) = 16
   \<and> compositionDegree (newCompositionPolynomial (\<lambda>s n. replicate n (0::int))
        [\<lparr>degree = 1\<rparr>, \<lparr>degree = 2\<rparr>] [] () 8) = 8"
  using composition_degrees [of "[\<lparr>degree = 1\<rparr>, \<lparr>degree = 2\<rparr>]"
      "\<lambda>s n. replicate n (0::int)" "[]" "()" 8]
  by (simp add: newCompositionPolynomial_def getCombinationDegree_def getCompositionDegree_def
      Let_def ceilLog2.simps)

subsection \<open>Constraint groups\<close>

lemma pushToGroup_keys: "set (map fst (pushToGroup d i gs)) = insert d (set (map fst gs))"
  by (induction d i gs rule: pushToGroup.induct) auto

lemma pushToGroup_distinct_keys:
  "distinct (map fst gs) \<Longrightarrow> distinct (map fst (pushToGroup d i gs))"
proof (induction gs)
  case Nil
  show ?case by simp
next
  case (Cons a gs)
  obtain k g where a: "a = (k, g)" by (cases a)
  show ?case
  proof (cases "k = d")
    case True
    with Cons.prems a show ?thesis by simp
  next
    case False
    have "k \<notin> set (map fst (pushToGroup d i gs))"
      using Cons.prems a False unfolding pushToGroup_keys by simp
    with Cons a False show ?thesis by simp
  qed
qed

lemma pushToGroup_indexes:
  "set (concat (map snd (pushToGroup d i gs))) = insert i (set (concat (map snd gs)))"
  by (induction d i gs rule: pushToGroup.induct) auto

lemma pushToGroup_distinct_indexes:
  "distinct (concat (map snd gs)) \<Longrightarrow> i \<notin> set (concat (map snd gs))
   \<Longrightarrow> distinct (concat (map snd (pushToGroup d i gs)))"
proof (induction gs)
  case Nil
  show ?case by simp
next
  case (Cons a gs)
  obtain k g where a: "a = (k, g)" by (cases a)
  show ?case
  proof (cases "k = d")
    case True
    with Cons.prems a show ?thesis by auto
  next
    case False
    have "distinct (concat (map snd (pushToGroup d i gs)))"
      using Cons by simp
    moreover have "set g \<inter> set (concat (map snd (pushToGroup d i gs))) = {}"
      using Cons.prems a unfolding pushToGroup_indexes by auto
    ultimately show ?thesis using Cons.prems a False by simp
  qed
qed

lemma pushToGroup_nonempty:
  "[] \<notin> set (map snd gs) \<Longrightarrow> [] \<notin> set (map snd (pushToGroup d i gs))"
  by (induction d i gs rule: pushToGroup.induct) auto

lemma pushToGroup_members:
  "(k, g) \<in> set (pushToGroup d i gs) \<Longrightarrow> j \<in> set g
   \<Longrightarrow> (k = d \<and> j = i) \<or> (\<exists>g'. (k, g') \<in> set gs \<and> j \<in> set g')"
proof (induction d i gs rule: pushToGroup.induct)
  case (1 d i)
  then show ?case by simp
next
  case (2 d i k' g' rest)
  show ?case
  proof (cases "k' = d")
    case True
    with "2.prems" show ?thesis by auto
  next
    case False
    with "2.prems" have "(k, g) = (k', g') \<or> (k, g) \<in> set (pushToGroup d i rest)" by simp
    then show ?thesis
    proof
      assume "(k, g) = (k', g')"
      with "2.prems" show ?thesis by auto
    next
      assume "(k, g) \<in> set (pushToGroup d i rest)"
      from "2.IH" [OF False this "2.prems"(2)] show ?thesis by auto
    qed
  qed
qed

lemma groupsOf_indexes: "groupsOf T cs n gs \<Longrightarrow> set (concat (map snd gs)) = {..<n}"
  unfolding groupsOf_def by blast

lemma groupsOf_index_less:
  "groupsOf T cs n gs \<Longrightarrow> (d, ix) \<in> set gs \<Longrightarrow> j \<in> set ix \<Longrightarrow> j < n"
proof -
  assume g: "groupsOf T cs n gs" and m: "(d, ix) \<in> set gs" "j \<in> set ix"
  from m have "j \<in> set (concat (map snd gs))" by force
  then have "j \<in> {..<n}" unfolding groupsOf_indexes [OF g] .
  then show ?thesis by simp
qed

lemma groupsOf_degree:
  "groupsOf T cs n gs \<Longrightarrow> (d, ix) \<in> set gs \<Longrightarrow> j \<in> set ix \<Longrightarrow> degree (cs ! j) * T = d"
  unfolding groupsOf_def by (auto simp: list_all_iff)

lemma groupsOf_push:
  assumes "groupsOf T cs i gs" "degree (cs ! i) * T = d"
  shows "groupsOf T cs (Suc i) (pushToGroup d i gs)"
proof -
  have old: "set (concat (map snd gs)) = {..<i}" using assms(1) by (rule groupsOf_indexes)
  then have "i \<notin> set (concat (map snd gs))" by simp
  moreover have "distinct (concat (map snd gs))" using assms(1) unfolding groupsOf_def by blast
  ultimately have 1: "distinct (concat (map snd (pushToGroup d i gs)))"
    by (intro pushToGroup_distinct_indexes)
  have 2: "set (concat (map snd (pushToGroup d i gs))) = {..<Suc i}"
    unfolding pushToGroup_indexes old by auto
  have 3: "list_all (\<lambda>(d, indexes). list_all (\<lambda>j. degree (cs ! j) * T = d) indexes)
       (pushToGroup d i gs)"
    unfolding list_all_iff
  proof (intro ballI, clarify)
    fix k g j assume kg: "(k, g) \<in> set (pushToGroup d i gs)" and j: "j \<in> set g"
    from pushToGroup_members [OF kg j] show "degree (cs ! j) * T = k"
      using assms(2) groupsOf_degree [OF assms(1)] by auto
  qed
  have 4: "distinct (map fst (pushToGroup d i gs))"
    using assms(1) unfolding groupsOf_def by (intro pushToGroup_distinct_keys) blast
  have 5: "[] \<notin> set (map snd (pushToGroup d i gs))"
    using assms(1) unfolding groupsOf_def by (intro pushToGroup_nonempty) blast
  show ?thesis unfolding groupsOf_def using 1 2 3 4 5 by blast
qed

lemma groupLoop_groupsOf:
  "groupsOf T all i gs \<Longrightarrow> cs = drop i all \<Longrightarrow> i \<le> length all
   \<Longrightarrow> groupsOf T all (length all) (groupLoop T i cs gs)"
proof (induction cs arbitrary: i gs)
  case Nil
  then show ?case by simp
next
  case (Cons c cs)
  have i: "i < length all" using Cons.prems by (cases "i < length all") auto
  have c: "c = all ! i" and cs: "cs = drop (Suc i) all"
    using Cons.prems(2) i by (simp_all add: Cons_nth_drop_Suc [symmetric])
  have "groupsOf T all (Suc i) (pushToGroup (degree c * T) i gs)"
    using Cons.prems(1) c by (intro groupsOf_push) simp_all
  then show ?case using Cons.IH [OF _ cs] i by simp
qed

lemma groupTransitionConstraints_groupsOf:
  "groupsOf T cs (length cs) (groupTransitionConstraints cs T)"
  unfolding groupTransitionConstraints_def
  by (rule groupLoop_groupsOf) (simp_all add: groupsOf_def)


lemma pushAdjusted_append:
  "\<forall>i\<in>set ix. i < length q
   \<Longrightarrow> pushAdjusted f p ix (q @ e) = Inr (q @ e @ map (\<lambda>i. f (q ! i) p) ix)"
  by (induction ix arbitrary: e) (simp_all add: nth_append)

lemma adjustAt_append:
  "\<forall>(d, ix)\<in>set gs. \<forall>i\<in>set ix. i < length q
   \<Longrightarrow> adjustAt fexp fmul cd x gs (q @ e)
       = Inr (q @ e @ concat (map (\<lambda>(d, ix). map (\<lambda>i. fmul (q ! i) (fexp x (int cd - int d))) ix)
                               (filter (\<lambda>(d, ix). d \<noteq> cd) gs)))"
proof (induction gs arbitrary: e)
  case Nil
  show ?case by simp
next
  case (Cons a gs)
  obtain d ix where a: "a = (d, ix)" by (cases a)
  have ix: "\<forall>i\<in>set ix. i < length q" using Cons.prems a by auto
  have rest: "\<forall>(d, ix)\<in>set gs. \<forall>i\<in>set ix. i < length q" using Cons.prems by auto
  show ?case
    using Cons.IH [OF rest] by (simp add: a pushAdjusted_append [OF ix])
qed

lemma adjustAll_append:
  "\<forall>(d, ix)\<in>set gs. \<forall>i\<in>set ix. i < length q
   \<Longrightarrow> adjustAll fexp series mulv cd rou n gs (q @ e)
       = Inr (q @ e @ concat (map (\<lambda>(d, ix). map (\<lambda>i. mulv (q ! i)
                                          (series (fexp rou (int cd - int d)) n)) ix)
                               (filter (\<lambda>(d, ix). d \<noteq> cd) gs)))"
proof (induction gs arbitrary: e)
  case Nil
  show ?case by simp
next
  case (Cons a gs)
  obtain d ix where a: "a = (d, ix)" by (cases a)
  have ix: "\<forall>i\<in>set ix. i < length q" using Cons.prems a by auto
  have rest: "\<forall>(d, ix)\<in>set gs. \<forall>i\<in>set ix. i < length q" using Cons.prems by auto
  show ?case
    using Cons.IH [OF rest] by (simp add: a pushAdjusted_append [OF ix])
qed

lemma distinct_concat_filter:
  "distinct (concat (map snd gs)) \<Longrightarrow> distinct (concat (map snd (filter Q gs)))"
proof (induction gs)
  case Nil
  show ?case by simp
next
  case (Cons a gs)
  have "set (concat (map snd (filter Q gs))) \<subseteq> set (concat (map snd gs))" by auto
  with Cons show ?case by auto
qed

lemma groupsOf_filter_length:
  assumes "groupsOf T cs (length cs) gs"
  shows "length (concat (map snd (filter (\<lambda>(d, ix). P d) gs)))
       = length (filter (\<lambda>c. P (degree c * T)) cs)"
proof -
  let ?sel = "concat (map snd (filter (\<lambda>(d, ix). P d) gs))"
  have dist: "distinct ?sel"
    using assms unfolding groupsOf_def by (intro distinct_concat_filter) blast
  have all: "set (concat (map snd gs)) = {..<length cs}"
    using assms by (rule groupsOf_indexes)
  have deg: "\<And>d ix j. (d, ix) \<in> set gs \<Longrightarrow> j \<in> set ix \<Longrightarrow> degree (cs ! j) * T = d"
    using assms by (rule groupsOf_degree)
  have "set ?sel = {i. i < length cs \<and> P (degree (cs ! i) * T)}"
  proof (intro set_eqI iffI)
    fix j assume "j \<in> set ?sel"
    then obtain d ix where m: "(d, ix) \<in> set gs" "P d" "j \<in> set ix" by auto
    have "j < length cs" using assms m(1) m(3) by (rule groupsOf_index_less)
    with deg [OF m(1) m(3)] m(2)
    show "j \<in> {i. i < length cs \<and> P (degree (cs ! i) * T)}" by simp
  next
    fix j assume j: "j \<in> {i. i < length cs \<and> P (degree (cs ! i) * T)}"
    then have "j \<in> {..<length cs}" by simp
    then have "j \<in> set (concat (map snd gs))" unfolding all .
    then obtain d ix where m: "(d, ix) \<in> set gs" "j \<in> set ix" by auto
    with deg [OF m] j have "P d" by simp
    with m show "j \<in> set ?sel" by force
  qed
  then have "length ?sel = card {i. i < length cs \<and> P (degree (cs ! i) * T)}"
    using distinct_card [OF dist] by simp
  then show ?thesis by (simp add: length_filter_conv_card)
qed

lemma maxConstraintDegree_ge: "c \<in> set cs \<Longrightarrow> degree c \<le> maxConstraintDegree m cs"
  unfolding maxConstraintDegree_Max by (rule Max_ge) auto

lemma degree_le_combination:
  assumes "c \<in> set cs"
  shows "degree c * T \<le> getCombinationDegree cs T"
proof -
  have "degree c \<le> maxConstraintDegree 1 cs" using assms by (rule maxConstraintDegree_ge)
  also have "\<dots> \<le> 2 ^ ceilLog2 (maxConstraintDegree 1 cs)" by (rule ceilLog2_upper)
  finally show ?thesis unfolding getCombinationDegree_def by (rule mult_le_mono1)
qed

lemma groups_filter_below:
  assumes "groupsOf T cs (length cs) gs"
  shows "filter (\<lambda>(d, ix). d \<noteq> getCombinationDegree cs T) gs
       = filter (\<lambda>(d, ix). d < getCombinationDegree cs T) gs"
proof (rule filter_cong [OF refl], clarify)
  fix d ix assume m: "(d, ix) \<in> set gs"
  show "(d \<noteq> getCombinationDegree cs T) = (d < getCombinationDegree cs T)"
  proof (cases ix)
    case Nil
    with m have "[] \<in> set (map snd gs)" by force
    moreover have "[] \<notin> set (map snd gs)" using assms unfolding groupsOf_def by blast
    ultimately show ?thesis by blast
  next
    case (Cons j js)
    then have j: "j \<in> set ix" by simp
    have "j < length cs" using assms m j by (rule groupsOf_index_less)
    moreover have "degree (cs ! j) * T = d" using assms m j by (rule groupsOf_degree)
    ultimately have "d \<le> getCombinationDegree cs T"
      using degree_le_combination [of "cs ! j" cs T] by simp
    then show ?thesis by linarith
  qed
qed

text \<open>
  Claim C9. The groups partition the constraint indexes: group keys are pairwise distinct,
  every index below \<open>m\<close> occurs exactly once in the index lists of the groups taken
  together and nothing else occurs, and every index of a group with key \<open>d\<close> belongs to
  a constraint with \<open>degree * traceLength = d\<close>. Hence, on \<open>m\<close> constraint evaluations,
  the degree adjustment of \<open>evaluateAt\<close> and of \<open>evaluateAll\<close> returns the \<open>m\<close> original
  entries followed by one adjusted entry for each index of each group below the combination
  degree, in group order; there are as many of these as constraints with
  \<open>degree * traceLength\<close> below the combination degree.
\<close>

theorem constraint_groups_partition:
  fixes constraints :: "constraint list" and T :: nat
  defines "groups \<equiv> groupTransitionConstraints constraints T"
    and "cd \<equiv> getCombinationDegree constraints T"
    and "below \<equiv> filter (\<lambda>(d, ix). d < getCombinationDegree constraints T)
                   (groupTransitionConstraints constraints T)"
  shows "distinct (map fst groups)
     \<and> distinct (concat (map snd groups))
     \<and> set (concat (map snd groups)) = {..<length constraints}
     \<and> (\<forall>(d, ix)\<in>set groups. \<forall>i\<in>set ix. degree (constraints ! i) * T = d)
     \<and> length (concat (map snd below)) = length (filter (\<lambda>c. degree c * T < cd) constraints)
     \<and> (length qValues = length constraints \<longrightarrow>
          adjustAt fexp fmul cd x groups qValues
            = Inr (qValues @ concat (map (\<lambda>(d, ix). map (\<lambda>i. fmul (qValues ! i)
                                             (fexp x (int cd - int d))) ix) below)))
     \<and> (length qEvaluations = length constraints \<longrightarrow>
          adjustAll fexp getPowerSeries mulVectorElements cd rou n groups qEvaluations
            = Inr (qEvaluations @ concat (map (\<lambda>(d, ix). map (\<lambda>i. mulVectorElements
                       (qEvaluations ! i) (getPowerSeries (fexp rou (int cd - int d)) n)) ix)
                     below)))"
proof -
  have inv: "groupsOf T constraints (length constraints) groups"
    unfolding groups_def by (rule groupTransitionConstraints_groupsOf)
  have below: "filter (\<lambda>(d, ix). d \<noteq> cd) groups = below"
    unfolding cd_def below_def groups_def
    using groups_filter_below [OF inv [unfolded groups_def]] .
  have bound: "\<forall>(d, ix)\<in>set groups. \<forall>i\<in>set ix. i < length q"
    if "length q = length constraints" for q :: "'z list"
    using groupsOf_index_less [OF inv] that by auto
  have at: "adjustAt fexp fmul cd x groups qValues
      = Inr (qValues @ concat (map (\<lambda>(d, ix). map (\<lambda>i. fmul (qValues ! i)
                                       (fexp x (int cd - int d))) ix) below))"
    if "length qValues = length constraints"
    using adjustAt_append [OF bound [OF that], of fexp fmul cd x "[]"] below by simp
  have all: "adjustAll fexp getPowerSeries mulVectorElements cd rou n groups qEvaluations
      = Inr (qEvaluations @ concat (map (\<lambda>(d, ix). map (\<lambda>i. mulVectorElements
                 (qEvaluations ! i) (getPowerSeries (fexp rou (int cd - int d)) n)) ix) below))"
    if "length qEvaluations = length constraints"
    using adjustAll_append [OF bound [OF that], of fexp getPowerSeries mulVectorElements cd rou n "[]"]
      below by simp
  have cnt: "length (concat (map snd below))
      = length (filter (\<lambda>c. degree c * T < cd) constraints)"
    unfolding below_def groups_def [symmetric] cd_def
    using groupsOf_filter_length [OF inv, of "\<lambda>d. d < getCombinationDegree constraints T"] .
  have deg: "\<forall>(d, ix)\<in>set groups. \<forall>i\<in>set ix. degree (constraints ! i) * T = d"
    using groupsOf_degree [OF inv] by auto
  have "distinct (map fst groups)" "distinct (concat (map snd groups))"
    using inv unfolding groupsOf_def by blast+
  then show ?thesis
    using groupsOf_indexes [OF inv] at all cnt deg by blast
qed

theorem constraint_groups_partition_witness:
  "groupTransitionConstraints [\<lparr>degree = 1\<rparr>, \<lparr>degree = 2\<rparr>, \<lparr>degree = 1\<rparr>] 4
     = [(4, [0, 2]), (8, [1])]
   \<and> adjustAt (\<lambda>x n. x ^ nat n) (*) 8 (2::int)
        (groupTransitionConstraints [\<lparr>degree = 1\<rparr>, \<lparr>degree = 2\<rparr>, \<lparr>degree = 1\<rparr>] 4)
        [10, 20, 30] = Inr [10, 20, 30, 160, 480]"
  using constraint_groups_partition [of "[\<lparr>degree = 1\<rparr>, \<lparr>degree = 2\<rparr>, \<lparr>degree = 1\<rparr>]" 4
      "[10, 20, 30]" "\<lambda>x n. x ^ nat n" "(*)" "2::int"]
  by (simp add: groupTransitionConstraints_def getCombinationDegree_def ceilLog2.simps)


subsection \<open>Coefficients drawn by the constructor\<close>

lemma dCoefficientCount_sum:
  "dCoefficientCount cd gs n
     = n + sum_list (map (\<lambda>(d, ix). length ix) (filter (\<lambda>(d, ix). d < cd) gs))"
  by (induction cd gs n rule: dCoefficientCount.induct) simp_all

lemma length_concat_snd:
  "length (concat (map snd gs)) = sum_list (map (\<lambda>(d, ix). length ix) gs)"
  by (induction gs) auto

text \<open>
  Claim C4. The constructor makes one call \<open>prng seed (dCount + bCount)\<close>, where
  \<open>dCount\<close> is the number of constraints plus the sizes of the groups with degree strictly
  below the combination degree, and \<open>bCount\<close> is the boundary-polynomial count, doubled
  exactly when the composition degree exceeds the trace length. The alpha coefficients
  are the first \<open>dCount\<close> values returned and the beta coefficients are the rest; when the
  generator returns as many values as it is asked for, there are \<open>dCount\<close> and \<open>bCount\<close>
  of them.
\<close>

theorem coefficient_counts:
  fixes prng :: "'s \<Rightarrow> nat \<Rightarrow> 'f list" and assertions :: "'f assertion list"
    and constraints :: "constraint list" and seed :: 's and T :: nat
  defines "cp \<equiv> newCompositionPolynomial prng constraints assertions seed T"
  defines "dCount \<equiv> length constraints
      + sum_list (map (\<lambda>(d, ix). length ix)
          (filter (\<lambda>(d, ix). d < getCombinationDegree constraints T)
             (groupTransitionConstraints constraints T)))"
    and "bCount \<equiv> (if compositionDegree
                         (newCompositionPolynomial prng constraints assertions seed T) > T
                    then 2 * boundaryCount assertions else boundaryCount assertions)"
  shows "dCoefficients cp = take dCount (prng seed (dCount + bCount))
     \<and> bCoefficients cp = drop dCount (prng seed (dCount + bCount))
     \<and> dCoefficients cp @ bCoefficients cp = prng seed (dCount + bCount)
     \<and> dCount = length constraints
         + length (filter (\<lambda>c. degree c * T < combinationDegree cp) constraints)
     \<and> (length (prng seed (dCount + bCount)) = dCount + bCount \<longrightarrow>
          length (dCoefficients cp) = dCount \<and> length (bCoefficients cp) = bCount)"
proof -
  let ?cd = "getCombinationDegree constraints T"
  let ?gs = "groupTransitionConstraints constraints T"
  have d: "dCoefficientCount ?cd ?gs (length constraints) = dCount"
    unfolding dCount_def by (rule dCoefficientCount_sum)
  have b: "bCoefficientCount (boundaryCount assertions) (getCompositionDegree ?cd T) T = bCount"
    unfolding bCount_def newCompositionPolynomial_def Let_def bCoefficientCount_def by simp
  have dc: "dCoefficients cp = take dCount (prng seed (dCount + bCount))"
    unfolding cp_def newCompositionPolynomial_def Let_def d b by simp
  have bc: "bCoefficients cp = drop dCount (prng seed (dCount + bCount))"
    unfolding cp_def newCompositionPolynomial_def Let_def d b by simp
  have cd: "combinationDegree cp = ?cd"
    unfolding cp_def newCompositionPolynomial_def Let_def by simp
  have "sum_list (map (\<lambda>(d, ix). length ix) (filter (\<lambda>(d, ix). d < ?cd) ?gs))
      = length (filter (\<lambda>c. degree c * T < ?cd) constraints)"
    using groupsOf_filter_length [OF groupTransitionConstraints_groupsOf, of "\<lambda>d. d < ?cd"]
    unfolding length_concat_snd .
  then have cnt: "dCount = length constraints
      + length (filter (\<lambda>c. degree c * T < combinationDegree cp) constraints)"
    unfolding dCount_def cd by simp
  have len: "length (dCoefficients cp) = dCount \<and> length (bCoefficients cp) = bCount"
    if "length (prng seed (dCount + bCount)) = dCount + bCount"
    unfolding dc bc using that by simp
  have "dCoefficients cp @ bCoefficients cp = prng seed (dCount + bCount)"
    unfolding dc bc by simp
  with dc bc cnt len show ?thesis by blast
qed

theorem coefficient_counts_witness:
  "dCoefficients (newCompositionPolynomial (\<lambda>s n. take n (map (\<lambda>i. s + i) [0, 1, 2, 3, 4, 5, 6, 7, 8, 9 :: int]))
      [\<lparr>degree = 1\<rparr>, \<lparr>degree = 3\<rparr>, \<lparr>degree = 1\<rparr>]
      [\<lparr>register = 0, step = 0, value = 1\<rparr>, \<lparr>register = 1, step = 0, value = 1\<rparr>,
       \<lparr>register = 1, step = 3, value = 5\<rparr>] 100 4)
     = [100, 101, 102, 103, 104, 105]
   \<and> bCoefficients (newCompositionPolynomial (\<lambda>s n. take n (map (\<lambda>i. s + i) [0, 1, 2, 3, 4, 5, 6, 7, 8, 9 :: int]))
      [\<lparr>degree = 1\<rparr>, \<lparr>degree = 3\<rparr>, \<lparr>degree = 1\<rparr>]
      [\<lparr>register = 0, step = 0, value = 1\<rparr>, \<lparr>register = 1, step = 0, value = 1\<rparr>,
       \<lparr>register = 1, step = 3, value = 5\<rparr>] 100 4)
     = [106, 107, 108, 109]"
proof -
  let ?cs = "[\<lparr>degree = 1\<rparr>, \<lparr>degree = 3\<rparr>, \<lparr>degree = 1\<rparr>]"
  let ?as = "[\<lparr>register = 0, step = 0, value = 1::int\<rparr>, \<lparr>register = 1, step = 0, value = 1\<rparr>,
       \<lparr>register = 1, step = 3, value = 5\<rparr>]"
  let ?prng = "\<lambda>s n. take n (map (\<lambda>i. s + i) [0, 1, 2, 3, 4, 5, 6, 7, 8, 9 :: int])"
  have g: "groupTransitionConstraints ?cs 4 = [(4, [0, 2]), (12, [1])]"
    by (simp add: groupTransitionConstraints_def)
  have c: "getCombinationDegree ?cs 4 = 16"
    by (simp add: getCombinationDegree_def ceilLog2.simps)
  have k: "compositionDegree (newCompositionPolynomial ?prng ?cs ?as 100 4) = 12"
    unfolding newCompositionPolynomial_def Let_def c getCompositionDegree_def by simp
  have b: "boundaryCount ?as = 2" by (simp add: boundaryCount_def)
  note w = coefficient_counts [of ?prng ?cs ?as 100 4, unfolded g c k b]
  from w [THEN conjunct1] w [THEN conjunct2, THEN conjunct1] show ?thesis by simp
qed

section \<open>Proof sizes\<close>

text \<open>
  A \<open>Buffer\<close> is a sequence of bytes. The arrays that the size computation measures hold
  buffers; a matrix is an array of columns.
\<close>

type_synonym byte = "8 word"
type_synonym buffer = "byte list"

definition MAX_ARRAY_LENGTH :: nat where
  "MAX_ARRAY_LENGTH = 256"

definition MAX_MATRIX_COLUMN_LENGTH :: nat where
  "MAX_MATRIX_COLUMN_LENGTH = 127"

text \<open>The loop \<open>size += array[i].length\<close>, from a starting size.\<close>

definition addLengths :: "nat \<Rightarrow> 'a list list \<Rightarrow> nat" where
  "addLengths sz array = foldl (\<lambda>sz element. sz + length element) sz array"

definition sizeOfArray :: "'a list list \<Rightarrow> error + nat" where
  "sizeOfArray array =
     (if length array = 0 then Inl ArrayZeroLength
      else if length array > MAX_ARRAY_LENGTH then Inl (ArrayTooLong (length array))
      else Inr (addLengths 1 array))"

text \<open>The loop of \<open>sizeOfMatrix\<close> over the columns throws at the first column refused.\<close>

fun sizeOfColumns :: "nat \<Rightarrow> 'a list list list \<Rightarrow> error + nat" where
  "sizeOfColumns sz [] = Inr sz"
| "sizeOfColumns sz (column # matrix) =
     (if length column \<ge> MAX_MATRIX_COLUMN_LENGTH
      then Inl (MatrixColumnTooLong (length column))
      else sizeOfColumns (addLengths sz column) matrix)"

definition sizeOfMatrix :: "'a list list list \<Rightarrow> error + nat" where
  "sizeOfMatrix matrix =
     (if length matrix > MAX_ARRAY_LENGTH then Inl (MatrixTooWide (length matrix))
      else sizeOfColumns (1 + length matrix) matrix)"

text \<open>A batched Merkle proof and its size.\<close>

record batchMerkleProof =
  "values" :: "buffer list"
  nodes :: "buffer list list"
  depth :: nat

definition andThen :: "error + 'a \<Rightarrow> ('a \<Rightarrow> error + 'b) \<Rightarrow> error + 'b" where
  "andThen r f = (case r of Inl e \<Rightarrow> Inl e | Inr x \<Rightarrow> f x)"

definition sizeOfMerkleProof :: "batchMerkleProof \<Rightarrow> error + nat" where
  "sizeOfMerkleProof prf =
     andThen (sizeOfArray (values prf)) (\<lambda>a.
     andThen (sizeOfMatrix (nodes prf)) (\<lambda>m.
     Inr (0 + a + m + 1)))"

subsection \<open>Limits of the size computation\<close>

lemma addLengths_sum: "addLengths n xs = n + sum_list (map length xs)"
  unfolding addLengths_def by (induction xs arbitrary: n) simp_all

lemma sizeOfColumns_accept:
  "\<forall>c\<in>set matrix. length c < MAX_MATRIX_COLUMN_LENGTH
   \<Longrightarrow> sizeOfColumns n matrix = Inr (n + sum_list (map (\<lambda>c. sum_list (map length c)) matrix))"
  by (induction matrix arbitrary: n) (simp_all add: addLengths_sum)

lemma sizeOfColumns_reject:
  "\<exists>c\<in>set matrix. length c \<ge> MAX_MATRIX_COLUMN_LENGTH \<Longrightarrow> isl (sizeOfColumns n matrix)"
  by (induction matrix arbitrary: n) auto

text \<open>
  Claim C6 as stated fails: an array of zero entries has at most 256 entries, and the size
  computation throws on it.
\<close>

theorem size_limits_zero_length_counterexample:
  "length ([] :: buffer list) \<le> 256 \<and> sizeOfArray ([] :: buffer list) = Inl ArrayZeroLength"
  by (simp add: sizeOfArray_def)

text \<open>
  Claim C6, amended. The size computation accepts every array of 1 to 256 entries and every
  matrix of at most 256 columns whose columns have at most 126 entries each; it throws on
  an array of zero or of more than 256 entries, on a matrix of more than 256 columns and
  on a matrix with a column of more than 127 entries.
\<close>

theorem size_limits:
  "(1 \<le> length array \<and> length array \<le> 256
      \<longrightarrow> sizeOfArray array = Inr (1 + sum_list (map length array)))
   \<and> (length array = 0 \<or> 256 < length array \<longrightarrow> isl (sizeOfArray array))
   \<and> (length matrix \<le> 256 \<and> (\<forall>column\<in>set matrix. length column \<le> 126)
      \<longrightarrow> sizeOfMatrix matrix
          = Inr (1 + length matrix
                   + sum_list (map (\<lambda>column. sum_list (map length column)) matrix)))
   \<and> (256 < length matrix \<or> (\<exists>column\<in>set matrix. 127 < length column)
      \<longrightarrow> isl (sizeOfMatrix matrix))"
proof -
  have 1: "sizeOfArray array = Inr (1 + sum_list (map length array))"
    if "1 \<le> length array \<and> length array \<le> 256"
    using that by (auto simp: sizeOfArray_def MAX_ARRAY_LENGTH_def addLengths_sum)
  have 2: "isl (sizeOfArray array)" if "length array = 0 \<or> 256 < length array"
    using that by (auto simp: sizeOfArray_def MAX_ARRAY_LENGTH_def)
  have 3: "sizeOfMatrix matrix
      = Inr (1 + length matrix + sum_list (map (\<lambda>column. sum_list (map length column)) matrix))"
    if "length matrix \<le> 256 \<and> (\<forall>column\<in>set matrix. length column \<le> 126)"
  proof -
    have "\<forall>c\<in>set matrix. length c < MAX_MATRIX_COLUMN_LENGTH"
      using that by (auto simp: MAX_MATRIX_COLUMN_LENGTH_def)
    then show ?thesis
      using that by (simp add: sizeOfMatrix_def MAX_ARRAY_LENGTH_def sizeOfColumns_accept)
  qed
  have 4: "isl (sizeOfMatrix matrix)"
    if "256 < length matrix \<or> (\<exists>column\<in>set matrix. 127 < length column)"
  proof (cases "256 < length matrix")
    case True
    then show ?thesis by (simp add: sizeOfMatrix_def MAX_ARRAY_LENGTH_def)
  next
    case False
    with that obtain c where "c \<in> set matrix" "127 < length c" by blast
    then have "\<exists>c\<in>set matrix. length c \<ge> MAX_MATRIX_COLUMN_LENGTH"
      unfolding MAX_MATRIX_COLUMN_LENGTH_def by (intro bexI [of _ c]) simp_all
    then show ?thesis
      using False by (simp add: sizeOfMatrix_def MAX_ARRAY_LENGTH_def sizeOfColumns_reject)
  qed
  from 1 2 3 4 show ?thesis by blast
qed

theorem size_limits_witness:
  "sizeOfArray [[1, 2], [3 :: byte]] = Inr 4
   \<and> isl (sizeOfArray (replicate 257 [0 :: byte]))
   \<and> sizeOfMatrix [[[1, 2], [3 :: byte]], []] = Inr 6
   \<and> isl (sizeOfMatrix [replicate 128 [0 :: byte]])"
  using size_limits [of "[[1, 2], [3 :: byte]]" "[[[1, 2], [3 :: byte]], []]"]
    size_limits [of "replicate 257 [0 :: byte]" "[replicate 128 [0 :: byte]]"]
  by simp

text \<open>
  A column of exactly \<open>MAX_MATRIX_COLUMN_LENGTH\<close> entries is refused, with the message that
  the length "cannot exceed 127".
\<close>

lemma sizeOfMatrix_column_127: "sizeOfMatrix [replicate 127 [0 :: byte]] = Inl (MatrixColumnTooLong 127)"
  by (simp add: sizeOfMatrix_def MAX_ARRAY_LENGTH_def MAX_MATRIX_COLUMN_LENGTH_def)

section \<open>Trace leaves\<close>

text \<open>
  Buffers have a fixed length. \<open>writeAt\<close> is the buffer after bytes have been stored
  from an offset on, for bytes that fit; \<open>Buffer.allocUnsafe\<close> returns memory that is not
  initialised, here the values of an arbitrary function \<open>junk\<close>.
\<close>

definition writeAt :: "buffer \<Rightarrow> nat \<Rightarrow> byte list \<Rightarrow> buffer" where
  "writeAt buf offset bytes = take offset buf @ bytes @ drop (offset + length bytes) buf"

definition allocUnsafe :: "(nat \<Rightarrow> byte) \<Rightarrow> nat \<Rightarrow> buffer" where
  "allocUnsafe junk n = map junk [0..<n]"

text \<open>
  \<open>toString(16)\<close> of a non-negative BigInt, \<open>padStart\<close>, and the hexadecimal decoding of
  \<open>buffer.write(string, offset, length, 'hex')\<close>: two digits make a byte, decoding stops
  at the first character that is not a digit and ignores a last digit left alone, and at
  most \<open>length\<close> bytes are written, and no more than fit. The call returns the number of
  bytes written.
\<close>

definition hexDigit :: "nat \<Rightarrow> char" where
  "hexDigit d = (if d < 10 then char_of (48 + d) else char_of (87 + d))"

fun toString16 :: "nat \<Rightarrow> string" where
  "toString16 n = (if n < 16 then [hexDigit n] else toString16 (n div 16) @ [hexDigit (n mod 16)])"

declare toString16.simps [simp del]

definition padStart :: "nat \<Rightarrow> char \<Rightarrow> string \<Rightarrow> string" where
  "padStart targetLength c s = replicate (targetLength - length s) c @ s"

definition hexValue :: "char \<Rightarrow> nat option" where
  "hexValue c =
     (let n = of_char c :: nat
      in if 48 \<le> n \<and> n \<le> 57 then Some (n - 48)
         else if 97 \<le> n \<and> n \<le> 102 then Some (n - 87)
         else if 65 \<le> n \<and> n \<le> 70 then Some (n - 55)
         else None)"

fun hexDecode :: "string \<Rightarrow> byte list" where
  "hexDecode (c1 # c2 # rest) =
     (case (hexValue c1, hexValue c2) of
        (Some hi, Some lo) \<Rightarrow> of_nat (hi * 16 + lo) # hexDecode rest
      | _ \<Rightarrow> [])"
| "hexDecode _ = []"

definition bufferWriteHex :: "string \<Rightarrow> nat \<Rightarrow> nat \<Rightarrow> buffer \<Rightarrow> error + buffer \<times> nat" where
  "bufferWriteHex s offset len buf =
     (if offset > length buf then Inl RangeError
      else let bytes = take (min len (length buf - offset)) (hexDecode s)
           in Inr (writeAt buf offset bytes, length bytes))"

text \<open>
  \<open>buffer.toString('hex', start, end)\<close> clamps the range to the buffer, and
  \<open>BigInt('0x' + s)\<close> throws a \<open>SyntaxError\<close> when no digit follows the prefix.
\<close>

definition byteToHex :: "byte \<Rightarrow> string" where
  "byteToHex b = [hexDigit (unat b div 16), hexDigit (unat b mod 16)]"

definition bufferToHex :: "buffer \<Rightarrow> nat \<Rightarrow> nat \<Rightarrow> string" where
  "bufferToHex buf start end = concat (map byteToHex (take (end - start) (drop start buf)))"

definition parseBigIntHex :: "string \<Rightarrow> error + nat" where
  "parseBigIntHex s =
     (if s = [] \<or> None \<in> set (map hexValue s) then Inl SyntaxError
      else Inr (foldl (\<lambda>acc c. acc * 16 + the (hexValue c)) 0 s))"


text \<open>
  The fields of the serializer objects. The serializer of trace leaves
  (\<open>mergeValues\<close>, \<open>parseValues\<close>) has the field element size, the state width and the
  number of secret inputs.
\<close>

record serializerBase =
  fieldElementSize :: nat
  stateWidth :: nat

record evaluationSerializer = serializerBase +
  secretInputCount :: nat

definition getValueCount :: "'a evaluationSerializer_scheme \<Rightarrow> nat" where
  "getValueCount this = stateWidth this + secretInputCount this"

text \<open>
  One loop of \<open>mergeValues\<close>, over \<open>remaining\<close> registers from \<open>reg\<close> on. A register or a
  position that does not exist reads \<open>undefined\<close>, and \<open>toString\<close> on it throws.
\<close>

fun mergeLoop ::
  "nat \<Rightarrow> nat \<Rightarrow> nat list list \<Rightarrow> nat \<Rightarrow> nat \<Rightarrow> buffer \<times> nat \<Rightarrow> error + buffer \<times> nat" where
  "mergeLoop valueSize position registers reg 0 state = Inr state"
| "mergeLoop valueSize position registers reg (Suc remaining) (buffer, offset) =
     (if reg < length registers \<and> position < length (registers ! reg)
      then andThen
             (bufferWriteHex
                (padStart (valueSize * 2) (CHR ''0'')
                   (toString16 (registers ! reg ! position)))
                offset valueSize buffer)
             (\<lambda>(buffer', written).
                mergeLoop valueSize position registers (Suc reg) remaining
                  (buffer', offset + written))
      else Inl TypeError)"

definition mergeValues ::
  "'a evaluationSerializer_scheme \<Rightarrow> (nat \<Rightarrow> byte) \<Rightarrow> nat list list \<times> nat list list \<Rightarrow> nat
     \<Rightarrow> error + buffer" where
  "mergeValues this junk evaluations position =
     (case evaluations of (pValues, sValues) \<Rightarrow>
        let valueSize = fieldElementSize this;
            valueCount = getValueCount this;
            buffer = allocUnsafe junk (valueCount * valueSize)
        in andThen (mergeLoop valueSize position pValues 0 (stateWidth this) (buffer, 0))
             (\<lambda>state.
           andThen (mergeLoop valueSize position sValues 0 (secretInputCount this) state)
             (\<lambda>(buffer, offset). Inr buffer)))"

text \<open>One loop of \<open>parseValues\<close>: \<open>remaining\<close> elements from \<open>offset\<close> on.\<close>

fun parseLoop :: "nat \<Rightarrow> buffer \<Rightarrow> nat \<Rightarrow> nat \<Rightarrow> error + nat list \<times> nat" where
  "parseLoop elementSize buffer 0 offset = Inr ([], offset)"
| "parseLoop elementSize buffer (Suc remaining) offset =
     andThen (parseBigIntHex (bufferToHex buffer offset (offset + elementSize)))
       (\<lambda>v. andThen (parseLoop elementSize buffer remaining (offset + elementSize))
              (\<lambda>(vs, offset'). Inr (v # vs, offset')))"

definition parseValues ::
  "'a evaluationSerializer_scheme \<Rightarrow> buffer \<Rightarrow> error + nat list \<times> nat list" where
  "parseValues this buffer =
     (let elementSize = fieldElementSize this
      in andThen (parseLoop elementSize buffer (stateWidth this) 0)
           (\<lambda>(pValues, offset).
         andThen (parseLoop elementSize buffer (secretInputCount this) offset)
           (\<lambda>(sValues, offset'). Inr (pValues, sValues))))"

text \<open>
  The specification of a leaf entry: a field element as \<open>n\<close> bytes, most significant byte
  first; \<open>bigEndianValue\<close> reads such bytes back, and \<open>hexFixed\<close> is the number as \<open>k\<close>
  hexadecimal digits.
\<close>

fun bigEndian :: "nat \<Rightarrow> nat \<Rightarrow> byte list" where
  "bigEndian 0 v = []"
| "bigEndian (Suc n) v = bigEndian n (v div 256) @ [of_nat (v mod 256)]"

fun bigEndianValue :: "nat \<Rightarrow> byte list \<Rightarrow> nat" where
  "bigEndianValue acc [] = acc"
| "bigEndianValue acc (b # bs) = bigEndianValue (acc * 256 + unat b) bs"

fun hexFixed :: "nat \<Rightarrow> nat \<Rightarrow> nat list" where
  "hexFixed 0 v = []"
| "hexFixed (Suc k) v = hexFixed k (v div 16) @ [v mod 16]"

subsection \<open>Hexadecimal digits and big-endian bytes\<close>

lemma hexValue_hexDigit: "d < 16 \<Longrightarrow> hexValue (hexDigit d) = Some d"
  by (auto simp: hexValue_def hexDigit_def Let_def)

lemma length_hexFixed [simp]: "length (hexFixed k v) = k"
  by (induction k arbitrary: v) simp_all

lemma hexFixed_zero: "hexFixed k 0 = replicate k 0"
  by (induction k) (simp_all add: replicate_append_same)

lemma hexFixed_digits: "d \<in> set (hexFixed k v) \<Longrightarrow> d < 16"
  by (induction k arbitrary: v) auto

lemma length_toString16: "v < 16 ^ k \<Longrightarrow> 0 < k \<Longrightarrow> length (toString16 v) \<le> k"
proof (induction k arbitrary: v)
  case 0
  then show ?case by simp
next
  case (Suc k)
  show ?case
  proof (cases "v < 16")
    case True
    then show ?thesis by (subst toString16.simps) simp
  next
    case False
    then have k: "0 < k" using Suc.prems by (cases k) auto
    have "v div 16 < 16 ^ k" using Suc.prems by (simp add: less_mult_imp_div_less mult.commute)
    from Suc.IH [OF this k] False show ?thesis by (subst toString16.simps) simp
  qed
qed

lemma padStart_toString16:
  "v < 16 ^ k \<Longrightarrow> 0 < k
   \<Longrightarrow> padStart k (CHR ''0'') (toString16 v) = map hexDigit (hexFixed k v)"
proof (induction k arbitrary: v)
  case 0
  then show ?case by simp
next
  case (Suc k)
  have "of_char (CHR ''0'') = (48::nat)" by simp
  then have "char_of (48::nat) = CHR ''0''" by (metis char_of_char)
  then have zero: "CHR ''0'' = hexDigit 0" by (simp add: hexDigit_def)
  show ?case
  proof (cases "v < 16")
    case True
    then have "toString16 v = [hexDigit v]" by (subst toString16.simps) simp
    with True show ?thesis
      by (simp add: padStart_def hexFixed_zero zero)
  next
    case False
    then have k: "0 < k" using Suc.prems by (cases k) auto
    have lt: "v div 16 < 16 ^ k"
      using Suc.prems by (simp add: less_mult_imp_div_less mult.commute)
    have ts: "toString16 v = toString16 (v div 16) @ [hexDigit (v mod 16)]"
      using False by (subst toString16.simps) simp
    have len: "length (toString16 (v div 16)) \<le> k" using lt k by (rule length_toString16)
    have "padStart (Suc k) (CHR ''0'') (toString16 v)
        = padStart k (CHR ''0'') (toString16 (v div 16)) @ [hexDigit (v mod 16)]"
      using len by (simp add: padStart_def ts)
    then show ?thesis using Suc.IH [OF lt k] by simp
  qed
qed

lemma hexDecode_append:
  "even (length ds) \<Longrightarrow> \<forall>d\<in>set ds. d < 16
   \<Longrightarrow> hexDecode (map hexDigit ds @ rest)
       = hexDecode (map hexDigit ds) @ hexDecode rest"
proof (induction ds rule: induct_list012)
  case 1
  show ?case by simp
next
  case (2 d)
  then show ?case by simp
next
  case (3 d1 d2 ds)
  then show ?case by (simp add: hexValue_hexDigit)
qed

lemma hexFixed_add: "hexFixed (j + k) v = hexFixed j (v div 16 ^ k) @ hexFixed k v"
proof (induction k arbitrary: v)
  case 0
  show ?case by simp
next
  case (Suc k)
  have "v div 16 div 16 ^ k = v div 16 ^ Suc k" by (simp add: div_mult2_eq)
  with Suc [of "v div 16"] show ?case by simp
qed

lemma hexDecode_hexFixed: "hexDecode (map hexDigit (hexFixed (2 * n) v)) = bigEndian n v"
proof (induction n arbitrary: v)
  case 0
  show ?case by simp
next
  case (Suc n)
  have split: "hexFixed (2 * Suc n) v = hexFixed (2 * n) (v div 256) @ [v div 16 mod 16, v mod 16]"
    using hexFixed_add [of "2 * n" 2 v] by (simp add: numeral_2_eq_2)
  have dig: "\<forall>d\<in>set (hexFixed (2 * n) (v div 256)). d < 16"
    using hexFixed_digits by blast
  have byte: "v div 16 mod 16 * 16 + v mod 16 = v mod 256"
    by (simp add: mod_mult2_eq [of v 16 16, simplified] add.commute mult.commute)
  show ?case
    unfolding split map_append
    by (subst hexDecode_append [OF _ dig]) (simp_all add: Suc hexValue_hexDigit byte)
qed

lemma length_bigEndian [simp]: "length (bigEndian n v) = n"
  by (induction n arbitrary: v) simp_all

lemma hexDecode_padStart:
  assumes "v < 256 ^ n" "0 < n"
  shows "hexDecode (padStart (n * 2) (CHR ''0'') (toString16 v)) = bigEndian n v"
proof -
  have "(16::nat) ^ (2 * n) = (16 ^ 2) ^ n" by (rule power_mult)
  then have "(256::nat) ^ n = 16 ^ (n * 2)" by (simp add: mult.commute)
  with assms have "v < 16 ^ (n * 2)" by simp
  then have "padStart (n * 2) (CHR ''0'') (toString16 v) = map hexDigit (hexFixed (n * 2) v)"
    using assms(2) by (intro padStart_toString16) simp_all
  then show ?thesis
    using hexDecode_hexFixed [of n v] by (simp add: mult.commute [of n 2])
qed


lemma bigEndianValue_append:
  "bigEndianValue acc (xs @ ys) = bigEndianValue (bigEndianValue acc xs) ys"
  by (induction xs arbitrary: acc) simp_all

lemma bigEndianValue_bigEndian:
  "v < 256 ^ n \<Longrightarrow> bigEndianValue acc (bigEndian n v) = acc * 256 ^ n + v"
proof (induction n arbitrary: v)
  case 0
  then show ?case by simp
next
  case (Suc n)
  have "v div 256 < 256 ^ n"
    using Suc.prems by (simp add: less_mult_imp_div_less mult.commute)
  then have "bigEndianValue acc (bigEndian n (v div 256)) = acc * 256 ^ n + v div 256"
    by (rule Suc.IH)
  moreover have "unat (of_nat (v mod 256) :: byte) = v mod 256"
    by (simp add: unat_of_nat)
  ultimately show ?case
    by (simp add: bigEndianValue_append algebra_simps)
qed

lemma high_nibble: "unat (b :: byte) div 16 < 16"
proof -
  have "unat b < 2 ^ LENGTH(8)" by (rule unsigned_less)
  then show ?thesis by (simp add: less_mult_imp_div_less)
qed

lemma hexValue_byteToHex: "None \<notin> set (map hexValue (byteToHex b))"
  by (simp add: byteToHex_def hexValue_hexDigit high_nibble)

lemma parse_fold_bytes:
  "foldl (\<lambda>acc c. acc * 16 + the (hexValue c)) acc (concat (map byteToHex bs))
     = bigEndianValue acc bs"
proof (induction bs arbitrary: acc)
  case Nil
  show ?case by simp
next
  case (Cons b bs)
  have "(acc * 16 + unat b div 16) * 16 + unat b mod 16 = acc * 256 + unat b"
    by (simp add: algebra_simps)
  then have step: "foldl (\<lambda>acc c. acc * 16 + the (hexValue c)) acc (byteToHex b @ rest)
      = foldl (\<lambda>acc c. acc * 16 + the (hexValue c)) (acc * 256 + unat b) rest" for rest
    by (simp add: byteToHex_def hexValue_hexDigit high_nibble add.commute mult.commute)
  show ?case
    unfolding list.map concat.simps step bigEndianValue.simps by (rule Cons)
qed

lemma parseBigIntHex_bytes:
  "bs \<noteq> [] \<Longrightarrow> parseBigIntHex (concat (map byteToHex bs)) = Inr (bigEndianValue 0 bs)"
proof -
  assume ne: "bs \<noteq> []"
  have "None \<notin> set (map hexValue (concat (map byteToHex bs)))"
    using hexValue_byteToHex by (induction bs) auto
  moreover have "concat (map byteToHex bs) \<noteq> []"
    using ne by (cases bs) (simp_all add: byteToHex_def)
  ultimately show ?thesis
    unfolding parseBigIntHex_def using parse_fold_bytes [of 0 bs] by simp
qed


lemma length_writeAt:
  "offset + length bytes \<le> length buf \<Longrightarrow> length (writeAt buf offset bytes) = length buf"
  by (simp add: writeAt_def)

lemma writeAt_writeAt:
  assumes "offset + length a + length b \<le> length buf"
  shows "writeAt (writeAt buf offset a) (offset + length a) b = writeAt buf offset (a @ b)"
proof -
  have "take (offset + length a) (take offset buf @ a @ drop (offset + length a) buf)
      = take offset buf @ a"
    using assms by simp
  moreover have "drop (offset + length a + length b)
        (take offset buf @ a @ drop (offset + length a) buf)
      = drop (offset + length a + length b) buf"
    using assms by (simp add: add.commute add.left_commute)
  ultimately show ?thesis by (simp add: writeAt_def add.assoc)
qed

lemma writeAt_all: "length bytes = length buf \<Longrightarrow> writeAt buf 0 bytes = bytes"
  by (simp add: writeAt_def)

lemma writeAt_empty: "writeAt buf offset [] = buf"
  by (simp add: writeAt_def)

lemma length_allocUnsafe [simp]: "length (allocUnsafe junk n) = n"
  by (simp add: allocUnsafe_def)

lemma bufferWriteHex_value:
  assumes "v < 256 ^ n" "0 < n" "offset + n \<le> length buf"
  shows "bufferWriteHex (padStart (n * 2) (CHR ''0'') (toString16 v)) offset n buf
       = Inr (writeAt buf offset (bigEndian n v), n)"
  using assms by (simp add: bufferWriteHex_def hexDecode_padStart)

lemma length_concat_bigEndian:
  "length (concat (map (\<lambda>i. bigEndian n (f i)) xs)) = length xs * n"
  by (induction xs) simp_all

lemma mergeLoop_bytes:
  assumes "0 < n"
  shows "offset + k * n \<le> length buf
    \<Longrightarrow> \<forall>i. r \<le> i \<and> i < r + k \<longrightarrow>
          i < length regs \<and> position < length (regs ! i) \<and> regs ! i ! position < 256 ^ n
    \<Longrightarrow> mergeLoop n position regs r k (buf, offset)
        = Inr (writeAt buf offset (concat (map (\<lambda>i. bigEndian n (regs ! i ! position)) [r..<r + k])),
               offset + k * n)"
proof (induction k arbitrary: r buf offset)
  case 0
  show ?case by (simp add: writeAt_empty)
next
  case (Suc k)
  let ?b = "bigEndian n (regs ! r ! position)"
  let ?rest = "concat (map (\<lambda>i. bigEndian n (regs ! i ! position)) [Suc r..<Suc r + k])"
  have here: "r < length regs" "position < length (regs ! r)" "regs ! r ! position < 256 ^ n"
    using Suc.prems(2) by auto
  have room: "offset + n \<le> length buf" using Suc.prems(1) by simp
  have w: "bufferWriteHex (padStart (n * 2) (CHR ''0'') (toString16 (regs ! r ! position)))
        offset n buf = Inr (writeAt buf offset ?b, n)"
    using here(3) assms room by (rule bufferWriteHex_value)
  have len: "length (writeAt buf offset ?b) = length buf"
    using room by (simp add: length_writeAt)
  have ih: "mergeLoop n position regs (Suc r) k (writeAt buf offset ?b, offset + n)
      = Inr (writeAt (writeAt buf offset ?b) (offset + n) ?rest, offset + n + k * n)"
    using Suc.prems by (intro Suc.IH) (simp_all add: len)
  have lrest: "length ?rest = k * n"
    by (simp add: length_concat_bigEndian)
  have join: "writeAt (writeAt buf offset ?b) (offset + n) ?rest = writeAt buf offset (?b @ ?rest)"
    using writeAt_writeAt [of offset ?b ?rest buf] Suc.prems(1) lrest by simp
  have upt: "[r..<r + Suc k] = r # [Suc r..<Suc r + k]"
    by (simp add: upt_conv_Cons del: upt_Suc)
  have step: "mergeLoop n position regs r (Suc k) (buf, offset)
      = mergeLoop n position regs (Suc r) k (writeAt buf offset ?b, offset + n)"
    using here w by (simp add: andThen_def)
  show ?case
    unfolding step ih join upt by (simp del: upt_Suc)
qed

lemma bufferToHex_at:
  "length bs = n
   \<Longrightarrow> bufferToHex (pre @ bs @ post) (length pre) (length pre + n) = concat (map byteToHex bs)"
  by (simp add: bufferToHex_def)

lemma parseLoop_values:
  assumes "0 < n"
  shows "\<forall>v\<in>set vs. v < 256 ^ n
    \<Longrightarrow> parseLoop n (pre @ concat (map (bigEndian n) vs) @ post) (length vs) (length pre)
        = Inr (vs, length pre + n * length vs)"
proof (induction vs arbitrary: pre)
  case Nil
  show ?case by simp
next
  case (Cons v vs)
  let ?b = "bigEndian n v"
  let ?rest = "concat (map (bigEndian n) vs)"
  have ne: "?b \<noteq> []" using assms by (cases n) simp_all
  have "bufferToHex (pre @ ?b @ ?rest @ post) (length pre) (length pre + n)
      = concat (map byteToHex ?b)"
    by (rule bufferToHex_at) simp
  then have first: "parseBigIntHex (bufferToHex (pre @ ?b @ ?rest @ post) (length pre)
        (length pre + n)) = Inr v"
    using parseBigIntHex_bytes [OF ne] bigEndianValue_bigEndian [of v n 0] Cons.prems by simp
  have ih: "parseLoop n ((pre @ ?b) @ ?rest @ post) (length vs) (length (pre @ ?b))
      = Inr (vs, length (pre @ ?b) + n * length vs)"
    using Cons.prems by (intro Cons.IH) simp
  show ?case using first ih by (simp add: andThen_def algebra_simps)
qed


text \<open>
  Claim C8. For a field element size of at least one byte and register values below
  \<open>2 ^ (8 * elementSize)\<close> at the position, the leaf that \<open>mergeValues\<close> returns is the
  concatenation of the values of the mutable registers followed by those of the secret
  registers at that position, each as \<open>elementSize\<close> bytes in big-endian order, and
  \<open>parseValues\<close> on that leaf returns exactly these values.
\<close>

theorem merge_parse_values:
  fixes this :: "'a evaluationSerializer_scheme"
  assumes "0 < fieldElementSize this"
    and "\<forall>r < stateWidth this. r < length pValues \<and> position < length (pValues ! r)
           \<and> pValues ! r ! position < 2 ^ (8 * fieldElementSize this)"
    and "\<forall>r < secretInputCount this. r < length sValues \<and> position < length (sValues ! r)
           \<and> sValues ! r ! position < 2 ^ (8 * fieldElementSize this)"
  shows "mergeValues this junk (pValues, sValues) position
       = Inr (concat (map (\<lambda>r. bigEndian (fieldElementSize this) (pValues ! r ! position))
                       [0..<stateWidth this])
              @ concat (map (\<lambda>r. bigEndian (fieldElementSize this) (sValues ! r ! position))
                         [0..<secretInputCount this]))
     \<and> parseValues this
         (concat (map (\<lambda>r. bigEndian (fieldElementSize this) (pValues ! r ! position))
                    [0..<stateWidth this])
          @ concat (map (\<lambda>r. bigEndian (fieldElementSize this) (sValues ! r ! position))
                      [0..<secretInputCount this]))
       = Inr (map (\<lambda>r. pValues ! r ! position) [0..<stateWidth this],
              map (\<lambda>r. sValues ! r ! position) [0..<secretInputCount this])"
proof -
  let ?n = "fieldElementSize this"
  let ?w = "stateWidth this"
  let ?c = "secretInputCount this"
  let ?ps = "map (\<lambda>r. pValues ! r ! position) [0..<?w]"
  let ?ss = "map (\<lambda>r. sValues ! r ! position) [0..<?c]"
  let ?pb = "concat (map (\<lambda>r. bigEndian ?n (pValues ! r ! position)) [0..<?w])"
  let ?sb = "concat (map (\<lambda>r. bigEndian ?n (sValues ! r ! position)) [0..<?c])"
  let ?buf = "allocUnsafe junk ((?w + ?c) * ?n)"
  have pw: "(2::nat) ^ (8 * ?n) = 256 ^ ?n"
    using power_mult [of "2::nat" 8 ?n] by simp
  have lpb: "length ?pb = ?w * ?n" and lsb: "length ?sb = ?c * ?n"
    by (simp_all add: length_concat_bigEndian)
  have p: "mergeLoop ?n position pValues 0 ?w (?buf, 0) = Inr (writeAt ?buf 0 ?pb, ?w * ?n)"
  proof -
    have room: "0 + ?w * ?n \<le> length ?buf" by (simp add: algebra_simps)
    have rows: "\<forall>i. 0 \<le> i \<and> i < 0 + ?w \<longrightarrow> i < length pValues
        \<and> position < length (pValues ! i) \<and> pValues ! i ! position < 256 ^ ?n"
      using assms(2) unfolding pw by simp
    from mergeLoop_bytes [OF assms(1) room rows] show ?thesis by simp
  qed
  have s: "mergeLoop ?n position sValues 0 ?c (writeAt ?buf 0 ?pb, ?w * ?n)
      = Inr (writeAt (writeAt ?buf 0 ?pb) (?w * ?n) ?sb, ?w * ?n + ?c * ?n)"
  proof -
    have room: "?w * ?n + ?c * ?n \<le> length (writeAt ?buf 0 ?pb)"
      by (simp add: length_writeAt lpb algebra_simps)
    have rows: "\<forall>i. 0 \<le> i \<and> i < 0 + ?c \<longrightarrow> i < length sValues
        \<and> position < length (sValues ! i) \<and> sValues ! i ! position < 256 ^ ?n"
      using assms(3) unfolding pw by simp
    from mergeLoop_bytes [OF assms(1) room rows] show ?thesis by simp
  qed
  have "writeAt (writeAt ?buf 0 ?pb) (0 + length ?pb) ?sb = writeAt ?buf 0 (?pb @ ?sb)"
    by (rule writeAt_writeAt) (simp add: lpb lsb algebra_simps)
  also have "\<dots> = ?pb @ ?sb"
    by (rule writeAt_all) (simp add: lpb lsb algebra_simps)
  finally have all: "writeAt (writeAt ?buf 0 ?pb) (?w * ?n) ?sb = ?pb @ ?sb"
    unfolding lpb add_0 .
  have merge: "mergeValues this junk (pValues, sValues) position = Inr (?pb @ ?sb)"
    unfolding mergeValues_def getValueCount_def Let_def prod.case p s andThen_def sum.case all
    by simp
  have pvals: "\<forall>v\<in>set ?ps. v < 256 ^ ?n" and svals: "\<forall>v\<in>set ?ss. v < 256 ^ ?n"
    using assms(2,3) unfolding pw by auto
  have pmap: "concat (map (bigEndian ?n) ?ps) = ?pb" and smap: "concat (map (bigEndian ?n) ?ss) = ?sb"
    by (simp_all add: comp_def)
  have pp: "parseLoop ?n (?pb @ ?sb) ?w 0 = Inr (?ps, ?n * ?w)"
    using parseLoop_values [OF assms(1) pvals, of "[]" ?sb] unfolding pmap by simp
  have ps: "parseLoop ?n (?pb @ ?sb) ?c (?n * ?w) = Inr (?ss, ?n * ?w + ?n * ?c)"
    using parseLoop_values [OF assms(1) svals, of ?pb "[]"] unfolding smap
    by (simp add: lpb mult.commute)
  have parse: "parseValues this (?pb @ ?sb) = Inr (?ps, ?ss)"
    unfolding parseValues_def Let_def pp andThen_def sum.case prod.case ps by simp
  from merge parse show ?thesis by blast
qed

theorem merge_parse_values_witness:
  "mergeValues \<lparr>fieldElementSize = 2, stateWidth = 2, secretInputCount = 1\<rparr> (\<lambda>i. 7)
      ([[1, 258], [3, 4]], [[5, 65535]]) 1 = Inr [1, 2, 0, 4, 255, 255]
   \<and> parseValues \<lparr>fieldElementSize = 2, stateWidth = 2, secretInputCount = 1\<rparr>
       [1, 2, 0, 4, 255, 255] = Inr ([258, 4], [65535])"
proof -
  let ?cfg = "\<lparr>fieldElementSize = 2, stateWidth = 2, secretInputCount = 1\<rparr>"
  have 1: "0 < fieldElementSize ?cfg" by simp
  have 2: "\<forall>r < stateWidth ?cfg. r < length [[1, 258], [3, 4::nat]]
      \<and> 1 < length ([[1, 258], [3, 4::nat]] ! r)
      \<and> [[1, 258], [3, 4::nat]] ! r ! 1 < 2 ^ (8 * fieldElementSize ?cfg)"
    by (auto simp: less_2_cases_iff)
  have 3: "\<forall>r < secretInputCount ?cfg. r < length [[5, 65535::nat]]
      \<and> 1 < length ([[5, 65535::nat]] ! r)
      \<and> [[5, 65535::nat]] ! r ! 1 < 2 ^ (8 * fieldElementSize ?cfg)"
    by simp
  have be: "bigEndian 2 258 = [1, 2]" "bigEndian 2 4 = [0, 4]" "bigEndian 2 65535 = [255, 255]"
    by (simp_all add: numeral_2_eq_2)
  show ?thesis
    using merge_parse_values [OF 1 2 3, of "\<lambda>i. 7"]
    by (simp add: be upt_conv_Cons numeral_2_eq_2 del: upt_Suc)
qed

section \<open>Proof serializer\<close>

text \<open>
  The proof object of \<open>serializeProof\<close> and \<open>parseProof\<close>: Merkle roots are buffers, the
  remainder holds field elements (BigInts) and the trace shape holds numbers.
\<close>

record friComponent =
  columnRoot :: buffer
  columnProof :: batchMerkleProof
  polyProof :: batchMerkleProof

record lowDegreeProof =
  lcRoot :: buffer
  lcProof :: batchMerkleProof
  components :: "friComponent list"
  remainder :: "nat list"

record starkProof =
  evRoot :: buffer
  evProof :: batchMerkleProof
  ldProof :: lowDegreeProof
  traceShape :: "nat list"

record proofSerializer = serializerBase +
  iRegisterCount :: nat
  sRegisterCount :: nat
  hashDigestSize :: nat

definition getValueCount_proof :: "'a proofSerializer_scheme \<Rightarrow> nat" where
  "getValueCount_proof this = stateWidth this + sRegisterCount this + iRegisterCount this"

subsection \<open>Buffer operations of the runtime\<close>

text \<open>
  Integers are stored least significant byte first. \<open>writeUInt8\<close> and \<open>writeUInt32LE\<close>
  throw a \<open>RangeError\<close> for a value that does not fit and for an offset at which the write
  would pass the end of the buffer; they return the offset after the bytes written. A
  writer takes the buffer and the offset and returns both.
\<close>

fun littleEndian :: "nat \<Rightarrow> nat \<Rightarrow> byte list" where
  "littleEndian 0 v = []"
| "littleEndian (Suc n) v = of_nat (v mod 256) # littleEndian n (v div 256)"

fun littleEndianValue :: "byte list \<Rightarrow> nat" where
  "littleEndianValue [] = 0"
| "littleEndianValue (b # bs) = unat b + 256 * littleEndianValue bs"

definition writeUInt8 :: "nat \<Rightarrow> buffer \<times> nat \<Rightarrow> error + buffer \<times> nat" where
  "writeUInt8 v state =
     (case state of (buffer, offset) \<Rightarrow>
        if 255 < v \<or> length buffer < offset + 1 then Inl RangeError
        else Inr (writeAt buffer offset [of_nat v], offset + 1))"

definition writeUInt32LE :: "nat \<Rightarrow> buffer \<times> nat \<Rightarrow> error + buffer \<times> nat" where
  "writeUInt32LE v state =
     (case state of (buffer, offset) \<Rightarrow>
        if 4294967295 < v \<or> length buffer < offset + 4 then Inl RangeError
        else Inr (writeAt buffer offset (littleEndian 4 v), offset + 4))"

text \<open>
  \<open>offset += source.copy(buffer, offset)\<close>: \<open>copy\<close> stores as many bytes of the source as fit
  and returns their number.
\<close>

definition copyTo :: "buffer \<Rightarrow> buffer \<times> nat \<Rightarrow> buffer \<times> nat" where
  "copyTo source state =
     (case state of (buffer, offset) \<Rightarrow>
        let bytes = take (length buffer - offset) source
        in (writeAt buffer offset bytes, offset + length bytes))"

definition readUInt8 :: "buffer \<Rightarrow> nat \<Rightarrow> error + nat" where
  "readUInt8 buffer offset =
     (if length buffer < offset + 1 then Inl RangeError else Inr (unat (buffer ! offset)))"

definition readUInt32LE :: "buffer \<Rightarrow> nat \<Rightarrow> error + nat" where
  "readUInt32LE buffer offset =
     (if length buffer < offset + 4 then Inl RangeError
      else Inr (littleEndianValue (take 4 (drop offset buffer))))"

text \<open>
  \<open>target = Buffer.allocUnsafe(n); buffer.copy(target, 0, offset, offset + n)\<close>: the target
  and the number of bytes copied. Nothing is copied into an empty target; a start beyond
  the end of the source throws; a source that ends early leaves the rest of the target
  as it was allocated.
\<close>

definition copyFrom :: "(nat \<Rightarrow> byte) \<Rightarrow> buffer \<Rightarrow> nat \<Rightarrow> nat \<Rightarrow> error + buffer \<times> nat" where
  "copyFrom junk buffer offset n =
     (if n = 0 then Inr (allocUnsafe junk n, 0)
      else if length buffer < offset then Inl RangeError
      else let bytes = take n (drop offset buffer)
           in Inr (bytes @ drop (length bytes) (allocUnsafe junk n), length bytes))"

text \<open>A \<open>for\<close> loop that writes the elements of an array one after the other.\<close>

fun forEach ::
  "('a \<Rightarrow> buffer \<times> nat \<Rightarrow> error + buffer \<times> nat) \<Rightarrow> 'a list \<Rightarrow> buffer \<times> nat
     \<Rightarrow> error + buffer \<times> nat" where
  "forEach write [] state = Inr state"
| "forEach write (x # xs) state = andThen (write x state) (forEach write xs)"

text \<open>
  A \<open>for\<close> loop that fills a new array, reading one element for each key from the offset
  that the element before it has left.
\<close>

fun readEach ::
  "('k \<Rightarrow> buffer \<Rightarrow> nat \<Rightarrow> error + 'a \<times> nat) \<Rightarrow> 'k list \<Rightarrow> buffer \<Rightarrow> nat
     \<Rightarrow> error + 'a list \<times> nat" where
  "readEach read [] buffer offset = Inr ([], offset)"
| "readEach read (k # ks) buffer offset =
     andThen (read k buffer offset) (\<lambda>(x, offset').
     andThen (readEach read ks buffer offset') (\<lambda>(xs, offset'').
     Inr (x # xs, offset'')))"

subsection \<open>Helpers of the wire format\<close>

text \<open>
  Modelled from the spec: \<open>utils.writeMerkleProof\<close>, \<open>utils.readMerkleProof\<close>,
  \<open>utils.writeBigInt\<close> and \<open>utils.readBigInt\<close>, which are missing from the sources.
  Section 6.4 gives the format: a batched Merkle proof is the values array (a count byte,
  then the elements), the nodes matrix (a byte for the number of columns, a length byte
  for each column, then the elements) and a depth byte; integers are little-endian, and
  a field element takes \<open>fieldElementSize\<close> bytes. Leaves and nodes are buffers and are
  copied; a leaf is read as \<open>leafSize\<close> bytes and a node as \<open>hashDigestSize\<close> bytes.

  The section admits arrays of up to 256 entries, and \<open>sizeOfArray\<close> and \<open>sizeOfMatrix\<close>
  accept 256 entries and 256 columns. A count of 256 is written in its one byte as 0 and
  a count byte 0 is read as 256: the convention that the section states for the length
  of the remainder, and that \<open>serializeProof\<close> and \<open>parseProof\<close> follow there. A column
  has fewer than 127 entries, so the length of a column is written as it is.
\<close>

definition writeArray :: "buffer list \<Rightarrow> buffer \<times> nat \<Rightarrow> error + buffer \<times> nat" where
  "writeArray array state =
     (let arrayLength = (if length array = MAX_ARRAY_LENGTH then 0 else length array)
      in andThen (writeUInt8 arrayLength state) (\<lambda>state.
         forEach (\<lambda>element state. Inr (copyTo element state)) array state))"

definition writeMatrix :: "buffer list list \<Rightarrow> buffer \<times> nat \<Rightarrow> error + buffer \<times> nat" where
  "writeMatrix matrix state =
     (let columnCount = (if length matrix = MAX_ARRAY_LENGTH then 0 else length matrix)
      in andThen (writeUInt8 columnCount state) (\<lambda>state.
         andThen (forEach (\<lambda>column. writeUInt8 (length column)) matrix state) (\<lambda>state.
         forEach (forEach (\<lambda>element state. Inr (copyTo element state))) matrix state)))"

definition writeMerkleProof ::
  "batchMerkleProof \<Rightarrow> nat \<Rightarrow> buffer \<times> nat \<Rightarrow> error + buffer \<times> nat" where
  "writeMerkleProof prf leafSize state =
     andThen (writeArray (values prf) state) (\<lambda>state.
     andThen (writeMatrix (nodes prf) state) (\<lambda>state.
     writeUInt8 (depth prf) state))"

definition writeBigInt :: "nat \<Rightarrow> nat \<Rightarrow> buffer \<times> nat \<Rightarrow> error + buffer \<times> nat" where
  "writeBigInt elementSize v state =
     (case state of (buffer, offset) \<Rightarrow>
        if length buffer < offset + elementSize then Inl RangeError
        else Inr (writeAt buffer offset (littleEndian elementSize v), offset + elementSize))"

definition readBigInt :: "buffer \<Rightarrow> nat \<Rightarrow> nat \<Rightarrow> error + nat" where
  "readBigInt buffer offset elementSize =
     (if length buffer < offset + elementSize then Inl RangeError
      else Inr (littleEndianValue (take elementSize (drop offset buffer))))"

definition readBuffer ::
  "(nat \<Rightarrow> byte) \<Rightarrow> nat \<Rightarrow> buffer \<Rightarrow> nat \<Rightarrow> error + buffer \<times> nat" where
  "readBuffer junk n buffer offset =
     andThen (copyFrom junk buffer offset n) (\<lambda>(target, copied). Inr (target, offset + copied))"

definition readArray ::
  "(nat \<Rightarrow> byte) \<Rightarrow> nat \<Rightarrow> buffer \<Rightarrow> nat \<Rightarrow> error + buffer list \<times> nat" where
  "readArray junk elementSize buffer offset =
     andThen (readUInt8 buffer offset) (\<lambda>lengthByte.
     let arrayLength = (if lengthByte = 0 then MAX_ARRAY_LENGTH else lengthByte)
     in readEach (\<lambda>i. readBuffer junk elementSize) [0..<arrayLength] buffer (offset + 1))"

definition readMatrix ::
  "(nat \<Rightarrow> byte) \<Rightarrow> nat \<Rightarrow> buffer \<Rightarrow> nat \<Rightarrow> error + buffer list list \<times> nat" where
  "readMatrix junk elementSize buffer offset =
     andThen (readUInt8 buffer offset) (\<lambda>countByte.
     let columnCount = (if countByte = 0 then MAX_ARRAY_LENGTH else countByte)
     in andThen (readEach (\<lambda>i buffer offset.
                   andThen (readUInt8 buffer offset) (\<lambda>columnLength.
                   Inr (columnLength, offset + 1)))
                 [0..<columnCount] buffer (offset + 1)) (\<lambda>(columnLengths, offset).
        readEach (\<lambda>columnLength. readEach (\<lambda>j. readBuffer junk elementSize) [0..<columnLength])
          columnLengths buffer offset))"

definition readMerkleProof ::
  "(nat \<Rightarrow> byte) \<Rightarrow> buffer \<Rightarrow> nat \<Rightarrow> nat \<Rightarrow> nat \<Rightarrow> error + batchMerkleProof \<times> nat" where
  "readMerkleProof junk buffer offset leafSize digestSize =
     andThen (readArray junk leafSize buffer offset) (\<lambda>(vs, offset).
     andThen (readMatrix junk digestSize buffer offset) (\<lambda>(ns, offset).
     andThen (readUInt8 buffer offset) (\<lambda>d.
     Inr (\<lparr> values = vs, nodes = ns, depth = d \<rparr>, offset + 1))))"


subsection \<open>Size of a proof\<close>

text \<open>
  Modelled from the spec: \<open>utils.sizeOf(proof, fieldElementSize, hashDigestSize)\<close>. The
  sources hold an earlier \<open>sizeOf\<close> with two arguments, for a proof object of another
  shape. This one adds up the wire format of section 6.4 for the proof object at hand,
  with \<open>sizeOfMerkleProof\<close> for every Merkle proof. The remainder takes its length byte
  and \<open>fieldElementSize\<close> bytes for each element, and is refused above 256 entries, the
  limit that the section sets for arrays; the section states no lower limit.
\<close>

record proofSize =
  total :: nat

fun sizeOfComponents :: "nat \<Rightarrow> friComponent list \<Rightarrow> error + nat" where
  "sizeOfComponents digestSize [] = Inr 0"
| "sizeOfComponents digestSize (component # rest) =
     andThen (sizeOfMerkleProof (columnProof component)) (\<lambda>c.
     andThen (sizeOfMerkleProof (polyProof component)) (\<lambda>p.
     andThen (sizeOfComponents digestSize rest) (\<lambda>levels.
     Inr (digestSize + c + p + levels))))"

definition sizeOfRemainder :: "nat list \<Rightarrow> nat \<Rightarrow> error + nat" where
  "sizeOfRemainder array elementSize =
     (if length array > MAX_ARRAY_LENGTH then Inl (ArrayTooLong (length array))
      else Inr (1 + length array * elementSize))"

definition sizeOf :: "starkProof \<Rightarrow> nat \<Rightarrow> nat \<Rightarrow> error + proofSize" where
  "sizeOf prf elementSize digestSize =
     andThen (sizeOfMerkleProof (evProof prf)) (\<lambda>ev.
     andThen (sizeOfMerkleProof (lcProof (ldProof prf))) (\<lambda>lc.
     andThen (sizeOfComponents digestSize (components (ldProof prf))) (\<lambda>levels.
     andThen (sizeOfRemainder (remainder (ldProof prf)) elementSize) (\<lambda>ldRemainder.
     Inr \<lparr> total = digestSize + ev + (digestSize + lc + 1 + levels + ldRemainder)
                   + (1 + 4 * length (traceShape prf)) \<rparr>))))"

subsection \<open>The serializer and the parser\<close>

text \<open>
  \<open>serializeProof\<close>, with \<open>utils.sizeOf\<close> as a parameter. The loop over the FRI components
  and the block that writes the remainder are functions of their own.
\<close>

definition serializeComponent ::
  "nat \<Rightarrow> friComponent \<Rightarrow> buffer \<times> nat \<Rightarrow> error + buffer \<times> nat" where
  "serializeComponent ldLeafSize component state =
     (let state = copyTo (columnRoot component) state
      in andThen (writeMerkleProof (columnProof component) ldLeafSize state) (\<lambda>state.
         writeMerkleProof (polyProof component) ldLeafSize state))"

definition serializeRemainder ::
  "nat \<Rightarrow> nat list \<Rightarrow> buffer \<times> nat \<Rightarrow> error + buffer \<times> nat" where
  "serializeRemainder elementSize array state =
     (let remainderLength = (if length array = 256 then 0 else length array)
      in andThen (writeUInt8 remainderLength state) (\<lambda>state.
         forEach (writeBigInt elementSize) array state))"

definition serializeProofWith ::
  "(starkProof \<Rightarrow> nat \<Rightarrow> nat \<Rightarrow> error + proofSize) \<Rightarrow> 'a proofSerializer_scheme
     \<Rightarrow> (nat \<Rightarrow> byte) \<Rightarrow> starkProof \<Rightarrow> error + buffer" where
  "serializeProofWith sizeOfProof this junk prf =
     andThen (sizeOfProof prf (fieldElementSize this) (hashDigestSize this)) (\<lambda>sz.
     let buffer = allocUnsafe junk (total sz);
         state = copyTo (evRoot prf) (buffer, 0);
         evLeafSize = getValueCount_proof this * fieldElementSize this
     in andThen (writeMerkleProof (evProof prf) evLeafSize state) (\<lambda>state.
     let ldLeafSize = fieldElementSize this * 4;
         state = copyTo (lcRoot (ldProof prf)) state
     in andThen (writeMerkleProof (lcProof (ldProof prf)) ldLeafSize state) (\<lambda>state.
        andThen (writeUInt8 (length (components (ldProof prf))) state) (\<lambda>state.
        andThen (forEach (serializeComponent ldLeafSize) (components (ldProof prf)) state)
          (\<lambda>state.
        andThen (serializeRemainder (fieldElementSize this) (remainder (ldProof prf)) state)
          (\<lambda>state.
        andThen (writeUInt8 (length (traceShape prf)) state) (\<lambda>state.
        andThen (forEach writeUInt32LE (traceShape prf) state) (\<lambda>(buffer, offset).
        Inr buffer))))))))"

definition serializeProof ::
  "'a proofSerializer_scheme \<Rightarrow> (nat \<Rightarrow> byte) \<Rightarrow> starkProof \<Rightarrow> error + buffer" where
  "serializeProof = serializeProofWith sizeOf"

definition parseComponent ::
  "'a proofSerializer_scheme \<Rightarrow> (nat \<Rightarrow> byte) \<Rightarrow> nat \<Rightarrow> buffer \<Rightarrow> nat
     \<Rightarrow> error + friComponent \<times> nat" where
  "parseComponent this junk ldLeafSize buffer offset =
     andThen (readBuffer junk (hashDigestSize this) buffer offset) (\<lambda>(root, offset).
     andThen (readMerkleProof junk buffer offset ldLeafSize (hashDigestSize this))
       (\<lambda>(columnProofInfo, offset).
     andThen (readMerkleProof junk buffer offset ldLeafSize (hashDigestSize this))
       (\<lambda>(polyProofInfo, offset).
     Inr (\<lparr> columnRoot = root, columnProof = columnProofInfo, polyProof = polyProofInfo \<rparr>,
          offset))))"

definition parseRemainder :: "nat \<Rightarrow> buffer \<Rightarrow> nat \<Rightarrow> error + nat list \<times> nat" where
  "parseRemainder elementSize buffer offset =
     andThen (readUInt8 buffer offset) (\<lambda>lengthByte.
     let friRemainderLength = (if lengthByte = 0 then MAX_ARRAY_LENGTH else lengthByte)
     in readEach (\<lambda>i buffer offset.
                    andThen (readBigInt buffer offset elementSize) (\<lambda>v.
                    Inr (v, offset + elementSize)))
          [0..<friRemainderLength] buffer (offset + 1))"

definition parseProof ::
  "'a proofSerializer_scheme \<Rightarrow> (nat \<Rightarrow> byte) \<Rightarrow> buffer \<Rightarrow> error + starkProof" where
  "parseProof this junk buffer =
     andThen (copyFrom junk buffer 0 (hashDigestSize this)) (\<lambda>(root, offset).
     let evLeafSize = getValueCount_proof this * fieldElementSize this
     in andThen (readMerkleProof junk buffer offset evLeafSize (hashDigestSize this))
          (\<lambda>(evProofInfo, offset).
     let ldLeafSize = fieldElementSize this * 4
     in andThen (readBuffer junk (hashDigestSize this) buffer offset) (\<lambda>(lcRootBuffer, offset).
        andThen (readMerkleProof junk buffer offset ldLeafSize (hashDigestSize this))
          (\<lambda>(lcProofInfo, offset).
        andThen (readUInt8 buffer offset) (\<lambda>componentCount.
        andThen (readEach (\<lambda>i. parseComponent this junk ldLeafSize) [0..<componentCount]
                   buffer (offset + 1))
          (\<lambda>(friComponents, offset).
        andThen (parseRemainder (fieldElementSize this) buffer offset)
          (\<lambda>(friRemainder, offset).
        andThen (readUInt8 buffer offset) (\<lambda>traceDepth.
        andThen (readEach (\<lambda>i buffer offset.
                    andThen (readUInt32LE buffer offset) (\<lambda>level. Inr (level, offset + 4)))
                   [0..<traceDepth] buffer (offset + 1))
          (\<lambda>(shape, offset).
        Inr \<lparr> evRoot = root,
              evProof = evProofInfo,
              ldProof = \<lparr> lcRoot = lcRootBuffer, lcProof = lcProofInfo,
                          components = friComponents, remainder = friRemainder \<rparr>,
              traceShape = shape \<rparr>)))))))))"

subsection \<open>Writers keep the length of the buffer\<close>

lemma andThen_Inr: "andThen r f = Inr y \<longleftrightarrow> (\<exists>x. r = Inr x \<and> f x = Inr y)"
  by (cases r) (simp_all add: andThen_def)

lemma andThen_simps [simp]: "andThen (Inr x) f = f x" "andThen (Inl e) f = Inl e"
  by (simp_all add: andThen_def)

lemma length_littleEndian [simp]: "length (littleEndian n v) = n"
  by (induction n arbitrary: v) simp_all

text \<open>No write changes the length of the buffer.\<close>

definition keeps :: "(buffer \<times> nat \<Rightarrow> error + buffer \<times> nat) \<Rightarrow> bool" where
  "keeps w \<longleftrightarrow> (\<forall>s s'. w s = Inr s' \<longrightarrow> length (fst s') = length (fst s))"

lemma keepsD: "keeps w \<Longrightarrow> w s = Inr s' \<Longrightarrow> length (fst s') = length (fst s)"
  unfolding keeps_def by blast

lemma keeps_andThen: "keeps w1 \<Longrightarrow> keeps w2 \<Longrightarrow> keeps (\<lambda>s. andThen (w1 s) w2)"
  unfolding keeps_def andThen_Inr by (metis)

lemma keeps_forEach: "(\<And>x. x \<in> set xs \<Longrightarrow> keeps (w x)) \<Longrightarrow> keeps (forEach w xs)"
proof (induction xs)
  case Nil
  show ?case by (simp add: keeps_def)
next
  case (Cons x xs)
  have "keeps (\<lambda>s. andThen (w x s) (forEach w xs))"
    using Cons by (intro keeps_andThen) simp_all
  then show ?case by (simp add: keeps_def)
qed

lemma length_copyTo: "length (fst (copyTo source s)) = length (fst s)"
  by (cases s) (auto simp: copyTo_def writeAt_def Let_def)

lemma keeps_copy: "keeps (\<lambda>s. Inr (copyTo source s))"
  by (simp add: keeps_def length_copyTo)

lemma keeps_after_copy: "keeps w \<Longrightarrow> keeps (\<lambda>s. w (copyTo source s))"
  unfolding keeps_def using length_copyTo by metis

lemma keeps_writeUInt8: "keeps (writeUInt8 v)"
  by (auto simp: keeps_def writeUInt8_def length_writeAt split: if_splits)

lemma keeps_writeUInt32LE: "keeps (writeUInt32LE v)"
  by (auto simp: keeps_def writeUInt32LE_def length_writeAt split: if_splits)

lemma keeps_writeBigInt: "keeps (writeBigInt n v)"
  by (auto simp: keeps_def writeBigInt_def length_writeAt split: if_splits)

lemma keeps_writeArray: "keeps (writeArray array)"
  unfolding writeArray_def Let_def
  by (intro keeps_andThen keeps_writeUInt8 keeps_forEach keeps_copy)

lemma keeps_writeMatrix: "keeps (writeMatrix matrix)"
  unfolding writeMatrix_def Let_def
  by (intro keeps_andThen keeps_writeUInt8 keeps_forEach keeps_copy)

lemma keeps_writeMerkleProof: "keeps (writeMerkleProof prf leafSize)"
  unfolding writeMerkleProof_def
  by (intro keeps_andThen keeps_writeUInt8 keeps_writeArray keeps_writeMatrix)

lemma keeps_serializeComponent: "keeps (serializeComponent leafSize component)"
  unfolding serializeComponent_def Let_def
  by (intro keeps_after_copy [where w = "\<lambda>s. andThen (writeMerkleProof _ _ s) _"]
      keeps_andThen keeps_writeMerkleProof)

lemma keeps_serializeRemainder: "keeps (serializeRemainder n array)"
  unfolding serializeRemainder_def Let_def
  by (intro keeps_andThen keeps_writeUInt8 keeps_forEach keeps_writeBigInt)

lemma serializeProofWith_length:
  assumes "serializeProofWith sizeOfProof this junk prf = Inr buffer"
  shows "\<exists>sz. sizeOfProof prf (fieldElementSize this) (hashDigestSize this) = Inr sz
           \<and> length buffer = total sz"
proof -
  from assms obtain sz s1 s2 s3 s4 s5 s6 s7 where
    sz: "sizeOfProof prf (fieldElementSize this) (hashDigestSize this) = Inr sz"
    and 1: "writeMerkleProof (evProof prf) (getValueCount_proof this * fieldElementSize this)
          (copyTo (evRoot prf) (allocUnsafe junk (total sz), 0)) = Inr s1"
    and 2: "writeMerkleProof (lcProof (ldProof prf)) (fieldElementSize this * 4)
          (copyTo (lcRoot (ldProof prf)) s1) = Inr s2"
    and 3: "writeUInt8 (length (components (ldProof prf))) s2 = Inr s3"
    and 4: "forEach (serializeComponent (fieldElementSize this * 4)) (components (ldProof prf)) s3
          = Inr s4"
    and 5: "serializeRemainder (fieldElementSize this) (remainder (ldProof prf)) s4 = Inr s5"
    and 6: "writeUInt8 (length (traceShape prf)) s5 = Inr s6"
    and 7: "forEach writeUInt32LE (traceShape prf) s6 = Inr s7"
    and 8: "fst s7 = buffer"
    unfolding serializeProofWith_def Let_def andThen_Inr by (auto split: prod.splits)
  have "length (fst s1) = total sz"
    using keepsD [OF keeps_writeMerkleProof 1] by (simp add: length_copyTo)
  then have "length (fst s2) = total sz"
    using keepsD [OF keeps_writeMerkleProof 2] by (simp add: length_copyTo)
  then have "length (fst s3) = total sz"
    using keepsD [OF keeps_writeUInt8 3] by simp
  then have "length (fst s4) = total sz"
    using keepsD [OF keeps_forEach 4] keeps_serializeComponent by simp
  then have "length (fst s5) = total sz"
    using keepsD [OF keeps_serializeRemainder 5] by simp
  then have "length (fst s6) = total sz"
    using keepsD [OF keeps_writeUInt8 6] by simp
  then have "length (fst s7) = total sz"
    using keepsD [OF keeps_forEach 7] keeps_writeUInt32LE by simp
  with sz 8 show ?thesis by blast
qed


subsection \<open>The wire format as a function of the proof\<close>

definition encodeArray :: "buffer list \<Rightarrow> byte list" where
  "encodeArray array = of_nat (length array) # concat array"

definition encodeMatrix :: "buffer list list \<Rightarrow> byte list" where
  "encodeMatrix matrix =
     of_nat (length matrix) # map (\<lambda>column. of_nat (length column)) matrix
       @ concat (map concat matrix)"

definition encodeMerkleProof :: "batchMerkleProof \<Rightarrow> byte list" where
  "encodeMerkleProof prf = encodeArray (values prf) @ encodeMatrix (nodes prf) @ [of_nat (depth prf)]"

definition encodeComponent :: "friComponent \<Rightarrow> byte list" where
  "encodeComponent component =
     columnRoot component @ encodeMerkleProof (columnProof component)
       @ encodeMerkleProof (polyProof component)"

definition encodeRemainder :: "nat \<Rightarrow> nat list \<Rightarrow> byte list" where
  "encodeRemainder elementSize array =
     (if length array = 256 then 0 else of_nat (length array))
       # concat (map (littleEndian elementSize) array)"

definition encodeTraceShape :: "nat list \<Rightarrow> byte list" where
  "encodeTraceShape shape = of_nat (length shape) # concat (map (littleEndian 4) shape)"

definition encodeProof :: "'a proofSerializer_scheme \<Rightarrow> starkProof \<Rightarrow> byte list" where
  "encodeProof this prf =
     evRoot prf @ encodeMerkleProof (evProof prf)
       @ lcRoot (ldProof prf) @ encodeMerkleProof (lcProof (ldProof prf))
       @ [of_nat (length (components (ldProof prf)))]
       @ concat (map encodeComponent (components (ldProof prf)))
       @ encodeRemainder (fieldElementSize this) (remainder (ldProof prf))
       @ encodeTraceShape (traceShape prf)"

text \<open>
  The counts that are written in one byte fit in it, and the levels of the trace shape fit
  in four bytes.
\<close>

definition fitsMerkleProof :: "batchMerkleProof \<Rightarrow> bool" where
  "fitsMerkleProof prf \<longleftrightarrow>
     (length (values prf) = 256 \<or> length (values prf) \<le> 255)
     \<and> (length (nodes prf) = 256 \<or> length (nodes prf) \<le> 255)
     \<and> list_all (\<lambda>column. length column \<le> 255) (nodes prf) \<and> depth prf \<le> 255"

definition fitsProof :: "starkProof \<Rightarrow> bool" where
  "fitsProof prf \<longleftrightarrow>
     fitsMerkleProof (evProof prf) \<and> fitsMerkleProof (lcProof (ldProof prf))
     \<and> length (components (ldProof prf)) \<le> 255
     \<and> list_all (\<lambda>c. fitsMerkleProof (columnProof c) \<and> fitsMerkleProof (polyProof c))
          (components (ldProof prf))
     \<and> (length (remainder (ldProof prf)) = 256 \<or> length (remainder (ldProof prf)) \<le> 255)
     \<and> length (traceShape prf) \<le> 255
     \<and> list_all (\<lambda>level. level \<le> 4294967295) (traceShape prf)"

text \<open>
  The parser reads every root and node as \<open>hashDigestSize\<close> bytes and every leaf as the
  leaf size of its tree, and it reads a count byte 0 as 256. A proof is well formed for a
  serializer when its roots, nodes and leaves have these sizes, every Merkle proof has a
  column of nodes and the remainder has an element.
\<close>

definition rootsOfDigestSize :: "'a proofSerializer_scheme \<Rightarrow> starkProof \<Rightarrow> bool" where
  "rootsOfDigestSize this prf \<longleftrightarrow>
     length (evRoot prf) = hashDigestSize this
     \<and> length (lcRoot (ldProof prf)) = hashDigestSize this
     \<and> list_all (\<lambda>c. length (columnRoot c) = hashDigestSize this) (components (ldProof prf))"

definition wellFormedMerkleProof :: "nat \<Rightarrow> nat \<Rightarrow> batchMerkleProof \<Rightarrow> bool" where
  "wellFormedMerkleProof leafSize digestSize prf \<longleftrightarrow>
     list_all (\<lambda>leaf. length leaf = leafSize) (values prf)
     \<and> nodes prf \<noteq> []
     \<and> list_all (list_all (\<lambda>node. length node = digestSize)) (nodes prf)"

definition wellFormedProof :: "'a proofSerializer_scheme \<Rightarrow> starkProof \<Rightarrow> bool" where
  "wellFormedProof this prf \<longleftrightarrow>
     rootsOfDigestSize this prf
     \<and> wellFormedMerkleProof (getValueCount_proof this * fieldElementSize this)
          (hashDigestSize this) (evProof prf)
     \<and> wellFormedMerkleProof (fieldElementSize this * 4) (hashDigestSize this)
          (lcProof (ldProof prf))
     \<and> list_all (\<lambda>c. wellFormedMerkleProof (fieldElementSize this * 4) (hashDigestSize this)
                        (columnProof c)
                   \<and> wellFormedMerkleProof (fieldElementSize this * 4) (hashDigestSize this)
                        (polyProof c))
          (components (ldProof prf))
     \<and> remainder (ldProof prf) \<noteq> []"

text \<open>
  \<open>utils.writeBigInt\<close> stores the low \<open>fieldElementSize\<close> bytes of a value, so the parser
  returns the elements of the remainder reduced to that size.
\<close>

definition reduceRemainder :: "'a proofSerializer_scheme \<Rightarrow> starkProof \<Rightarrow> starkProof" where
  "reduceRemainder this prf =
     prf\<lparr> ldProof := (ldProof prf)\<lparr> remainder :=
       map (\<lambda>v. v mod 256 ^ fieldElementSize this) (remainder (ldProof prf)) \<rparr> \<rparr>"

text \<open>The writes of \<open>serializeProof\<close> after the allocation, as one writer.\<close>

definition proofWriter ::
  "'a proofSerializer_scheme \<Rightarrow> starkProof \<Rightarrow> buffer \<times> nat \<Rightarrow> error + buffer \<times> nat" where
  "proofWriter this prf =
     (\<lambda>state.
        andThen (writeMerkleProof (evProof prf) (getValueCount_proof this * fieldElementSize this)
                   (copyTo (evRoot prf) state)) (\<lambda>state.
        andThen (writeMerkleProof (lcProof (ldProof prf)) (fieldElementSize this * 4)
                   (copyTo (lcRoot (ldProof prf)) state)) (\<lambda>state.
        andThen (writeUInt8 (length (components (ldProof prf))) state) (\<lambda>state.
        andThen (forEach (serializeComponent (fieldElementSize this * 4))
                   (components (ldProof prf)) state) (\<lambda>state.
        andThen (serializeRemainder (fieldElementSize this) (remainder (ldProof prf)) state)
          (\<lambda>state.
        andThen (writeUInt8 (length (traceShape prf)) state)
          (forEach writeUInt32LE (traceShape prf))))))))"

lemma serializeProofWith_writer:
  "serializeProofWith sizeOfProof this junk prf
     = andThen (sizeOfProof prf (fieldElementSize this) (hashDigestSize this)) (\<lambda>sz.
       andThen (proofWriter this prf (allocUnsafe junk (total sz), 0)) (\<lambda>s. Inr (fst s)))"
proof -
  have eta: "(\<lambda>(buffer, offset). Inr buffer) = (\<lambda>s :: buffer \<times> nat. (Inr (fst s) :: error + buffer))"
    by (simp add: fun_eq_iff)
  have assoc: "andThen (andThen r f) g = andThen r (\<lambda>x. andThen (f x) g)"
    for r :: "error + buffer \<times> nat" and f :: "buffer \<times> nat \<Rightarrow> error + buffer \<times> nat"
      and g :: "buffer \<times> nat \<Rightarrow> error + buffer"
    by (cases r) simp_all
  show ?thesis
    unfolding serializeProofWith_def proofWriter_def Let_def eta
    by (simp add: assoc cong: sum.case_cong)
qed

text \<open>
  A writer \<open>writes\<close> a byte sequence when, at every offset that leaves room for it, it
  stores exactly these bytes and advances the offset past them.
\<close>

definition writes :: "(buffer \<times> nat \<Rightarrow> error + buffer \<times> nat) \<Rightarrow> byte list \<Rightarrow> bool" where
  "writes w bytes \<longleftrightarrow>
     (\<forall>buffer offset. offset + length bytes \<le> length buffer \<longrightarrow>
        w (buffer, offset) = Inr (writeAt buffer offset bytes, offset + length bytes))"

lemma writesD:
  "writes w bytes \<Longrightarrow> offset + length bytes \<le> length buffer
   \<Longrightarrow> w (buffer, offset) = Inr (writeAt buffer offset bytes, offset + length bytes)"
  unfolding writes_def by blast

lemma writes_andThen:
  assumes "writes w1 a" "writes w2 b"
  shows "writes (\<lambda>s. andThen (w1 s) w2) (a @ b)"
  unfolding writes_def
proof (intro allI impI)
  fix buffer :: buffer and offset :: nat
  assume room: "offset + length (a @ b) \<le> length buffer"
  then have ra: "offset + length a \<le> length buffer" by simp
  have rb: "offset + length a + length b \<le> length (writeAt buffer offset a)"
    using room ra by (simp add: length_writeAt)
  show "andThen (w1 (buffer, offset)) w2
      = Inr (writeAt buffer offset (a @ b), offset + length (a @ b))"
    using writesD [OF assms(1) ra] writesD [OF assms(2) rb] writeAt_writeAt [of offset a b buffer]
      room by (simp add: add.assoc)
qed

lemma writes_nil: "writes Inr []"
  by (simp add: writes_def writeAt_empty)

lemma writes_forEach:
  "(\<And>x. x \<in> set xs \<Longrightarrow> writes (w x) (e x)) \<Longrightarrow> writes (forEach w xs) (concat (map e xs))"
proof (induction xs)
  case Nil
  have "forEach w [] = Inr" by (simp add: fun_eq_iff)
  then show ?case by (simp add: writes_nil)
next
  case (Cons x xs)
  have "writes (\<lambda>s. andThen (w x s) (forEach w xs)) (e x @ concat (map e xs))"
    using Cons by (intro writes_andThen) simp_all
  moreover have "forEach w (x # xs) = (\<lambda>s. andThen (w x s) (forEach w xs))"
    by (simp add: fun_eq_iff)
  ultimately show ?case by simp
qed

lemma copyTo_fits:
  "offset + length source \<le> length buffer
   \<Longrightarrow> copyTo source (buffer, offset) = (writeAt buffer offset source, offset + length source)"
  by (simp add: copyTo_def Let_def)

lemma writes_copy: "writes (\<lambda>s. Inr (copyTo source s)) source"
  by (simp add: writes_def copyTo_fits)

lemma writes_after_copy:
  assumes "writes w b"
  shows "writes (\<lambda>s. w (copyTo source s)) (source @ b)"
proof -
  have "writes (\<lambda>s. andThen (Inr (copyTo source s)) w) (source @ b)"
    using writes_copy assms by (rule writes_andThen)
  then show ?thesis by simp
qed

lemma writes_writeUInt8: "v \<le> 255 \<Longrightarrow> writes (writeUInt8 v) [of_nat v]"
  by (simp add: writes_def writeUInt8_def)

lemma writes_writeUInt32LE: "v \<le> 4294967295 \<Longrightarrow> writes (writeUInt32LE v) (littleEndian 4 v)"
  by (simp add: writes_def writeUInt32LE_def)

lemma writes_writeBigInt: "writes (writeBigInt n v) (littleEndian n v)"
  by (simp add: writes_def writeBigInt_def)

lemma of_nat_count_byte:
  "(of_nat (if n = MAX_ARRAY_LENGTH then 0 else n) :: byte) = of_nat n"
  by (simp add: MAX_ARRAY_LENGTH_def)

lemma writes_writeArray:
  assumes "length array = 256 \<or> length array \<le> 255"
  shows "writes (writeArray array) (encodeArray array)"
proof -
  let ?b = "if length array = MAX_ARRAY_LENGTH then 0 else length array"
  have b: "?b \<le> 255" using assms by (auto simp: MAX_ARRAY_LENGTH_def)
  have "writes (\<lambda>s. andThen (writeUInt8 ?b s)
          (forEach (\<lambda>element state. Inr (copyTo element state)) array))
      ([of_nat ?b] @ concat (map (\<lambda>x. x) array))"
    by (intro writes_andThen writes_writeUInt8 b writes_forEach writes_copy)
  then show ?thesis
    unfolding writeArray_def encodeArray_def Let_def of_nat_count_byte by simp
qed


lemma writes_writeMatrix:
  assumes "length matrix = 256 \<or> length matrix \<le> 255"
    "list_all (\<lambda>column. length column \<le> 255) matrix"
  shows "writes (writeMatrix matrix) (encodeMatrix matrix)"
proof -
  let ?b = "if length matrix = MAX_ARRAY_LENGTH then 0 else length matrix"
  have b: "?b \<le> 255" using assms(1) by (auto simp: MAX_ARRAY_LENGTH_def)
  have lens: "writes (forEach (\<lambda>column. writeUInt8 (length column)) matrix)
      (concat (map (\<lambda>column. [of_nat (length column)]) matrix))"
    using assms(2) by (intro writes_forEach writes_writeUInt8) (simp add: list_all_iff)
  have cells: "writes (forEach (forEach (\<lambda>element state. Inr (copyTo element state))) matrix)
      (concat (map (\<lambda>column. concat (map (\<lambda>x. x) column)) matrix))"
    by (intro writes_forEach writes_copy)
  have flat: "concat (map (\<lambda>column. [of_nat (length column) :: byte]) matrix)
      = map (\<lambda>column. of_nat (length column)) matrix"
    by (induction matrix) simp_all
  have "writes (\<lambda>s. andThen (writeUInt8 ?b s) (\<lambda>s.
          andThen (forEach (\<lambda>column. writeUInt8 (length column)) matrix s)
            (forEach (forEach (\<lambda>element state. Inr (copyTo element state))) matrix)))
      ([of_nat ?b] @ concat (map (\<lambda>column. [of_nat (length column)]) matrix)
         @ concat (map (\<lambda>column. concat (map (\<lambda>x. x) column)) matrix))"
    by (intro writes_andThen writes_writeUInt8 b lens cells)
  then show ?thesis
    unfolding writeMatrix_def encodeMatrix_def Let_def flat of_nat_count_byte by simp
qed

lemma writes_writeMerkleProof:
  assumes "fitsMerkleProof prf"
  shows "writes (writeMerkleProof prf leafSize) (encodeMerkleProof prf)"
proof -
  have "writes (\<lambda>s. andThen (writeArray (values prf) s) (\<lambda>s.
          andThen (writeMatrix (nodes prf) s) (writeUInt8 (depth prf))))
      (encodeArray (values prf) @ encodeMatrix (nodes prf) @ [of_nat (depth prf)])"
    using assms unfolding fitsMerkleProof_def
    by (intro writes_andThen writes_writeArray writes_writeMatrix writes_writeUInt8) simp_all
  then show ?thesis
    unfolding writeMerkleProof_def encodeMerkleProof_def by simp
qed

lemma writes_serializeComponent:
  assumes "fitsMerkleProof (columnProof c)" "fitsMerkleProof (polyProof c)"
  shows "writes (serializeComponent leafSize c) (encodeComponent c)"
proof -
  have "writes (\<lambda>s. andThen (writeMerkleProof (columnProof c) leafSize s)
          (writeMerkleProof (polyProof c) leafSize))
      (encodeMerkleProof (columnProof c) @ encodeMerkleProof (polyProof c))"
    using assms by (intro writes_andThen writes_writeMerkleProof)
  from writes_after_copy [OF this, of "columnRoot c"] show ?thesis
    unfolding serializeComponent_def encodeComponent_def Let_def by simp
qed

lemma remainder_length_fits:
  "length array = 256 \<or> length array \<le> 255
   \<Longrightarrow> (if length array = 256 then 0 else length array) \<le> 255"
  by auto

lemma writes_serializeRemainder:
  assumes "length array = 256 \<or> length array \<le> 255"
  shows "writes (serializeRemainder n array) (encodeRemainder n array)"
proof -
  let ?b = "if length array = 256 then 0 else length array"
  have "writes (\<lambda>s. andThen (writeUInt8 ?b s) (forEach (writeBigInt n) array))
      ([of_nat ?b] @ concat (map (littleEndian n) array))"
    using assms
    by (intro writes_andThen writes_writeUInt8 writes_forEach writes_writeBigInt
        remainder_length_fits)
  moreover have "(of_nat ?b :: byte) = (if length array = 256 then 0 else of_nat (length array))"
    by simp
  ultimately show ?thesis
    unfolding serializeRemainder_def encodeRemainder_def Let_def by simp
qed

lemma writes_proofWriter:
  assumes "fitsProof prf"
  shows "writes (proofWriter this prf) (encodeProof this prf)"
proof -
  have comps: "writes (forEach (serializeComponent (fieldElementSize this * 4))
        (components (ldProof prf)))
      (concat (map encodeComponent (components (ldProof prf))))"
    using assms unfolding fitsProof_def list_all_iff
    by (intro writes_forEach writes_serializeComponent) blast+
  have shape: "writes (forEach writeUInt32LE (traceShape prf))
      (concat (map (littleEndian 4) (traceShape prf)))"
    using assms unfolding fitsProof_def list_all_iff
    by (intro writes_forEach writes_writeUInt32LE) blast
  have tail: "writes (\<lambda>s. andThen (writeUInt8 (length (components (ldProof prf))) s) (\<lambda>s.
        andThen (forEach (serializeComponent (fieldElementSize this * 4))
                   (components (ldProof prf)) s) (\<lambda>s.
        andThen (serializeRemainder (fieldElementSize this) (remainder (ldProof prf)) s) (\<lambda>s.
        andThen (writeUInt8 (length (traceShape prf)) s)
          (forEach writeUInt32LE (traceShape prf))))))
      ([of_nat (length (components (ldProof prf)))]
        @ concat (map encodeComponent (components (ldProof prf)))
        @ encodeRemainder (fieldElementSize this) (remainder (ldProof prf))
        @ [of_nat (length (traceShape prf))]
        @ concat (map (littleEndian 4) (traceShape prf)))"
    using assms unfolding fitsProof_def
    by (intro writes_andThen writes_writeUInt8 comps shape writes_serializeRemainder) blast+
  have lc: "writes (\<lambda>s. andThen (writeMerkleProof (lcProof (ldProof prf))
          (fieldElementSize this * 4) s) (\<lambda>s.
        andThen (writeUInt8 (length (components (ldProof prf))) s) (\<lambda>s.
        andThen (forEach (serializeComponent (fieldElementSize this * 4))
                   (components (ldProof prf)) s) (\<lambda>s.
        andThen (serializeRemainder (fieldElementSize this) (remainder (ldProof prf)) s) (\<lambda>s.
        andThen (writeUInt8 (length (traceShape prf)) s)
          (forEach writeUInt32LE (traceShape prf)))))))
      (encodeMerkleProof (lcProof (ldProof prf))
        @ [of_nat (length (components (ldProof prf)))]
        @ concat (map encodeComponent (components (ldProof prf)))
        @ encodeRemainder (fieldElementSize this) (remainder (ldProof prf))
        @ [of_nat (length (traceShape prf))]
        @ concat (map (littleEndian 4) (traceShape prf)))"
    using assms unfolding fitsProof_def
    by (intro writes_andThen [OF _ tail] writes_writeMerkleProof) blast
  have ev: "writes (\<lambda>s. andThen (writeMerkleProof (evProof prf)
          (getValueCount_proof this * fieldElementSize this) s) (\<lambda>s.
        andThen (writeMerkleProof (lcProof (ldProof prf)) (fieldElementSize this * 4)
                   (copyTo (lcRoot (ldProof prf)) s)) (\<lambda>s.
        andThen (writeUInt8 (length (components (ldProof prf))) s) (\<lambda>s.
        andThen (forEach (serializeComponent (fieldElementSize this * 4))
                   (components (ldProof prf)) s) (\<lambda>s.
        andThen (serializeRemainder (fieldElementSize this) (remainder (ldProof prf)) s) (\<lambda>s.
        andThen (writeUInt8 (length (traceShape prf)) s)
          (forEach writeUInt32LE (traceShape prf))))))))
      (encodeMerkleProof (evProof prf) @ lcRoot (ldProof prf)
        @ encodeMerkleProof (lcProof (ldProof prf))
        @ [of_nat (length (components (ldProof prf)))]
        @ concat (map encodeComponent (components (ldProof prf)))
        @ encodeRemainder (fieldElementSize this) (remainder (ldProof prf))
        @ [of_nat (length (traceShape prf))]
        @ concat (map (littleEndian 4) (traceShape prf)))"
    using assms unfolding fitsProof_def
    by (intro writes_andThen [OF _ writes_after_copy [OF lc]] writes_writeMerkleProof) blast
  from writes_after_copy [OF ev, of "evRoot prf"] show ?thesis
    unfolding proofWriter_def encodeProof_def encodeTraceShape_def by simp
qed


text \<open>What a writer needs of its argument in order to return.\<close>

definition needs :: "(buffer \<times> nat \<Rightarrow> error + buffer \<times> nat) \<Rightarrow> bool \<Rightarrow> bool" where
  "needs w P \<longleftrightarrow> (\<forall>s s'. w s = Inr s' \<longrightarrow> P)"

lemma needsD: "needs w P \<Longrightarrow> w s = Inr s' \<Longrightarrow> P"
  unfolding needs_def by blast

lemma needs_weaken: "needs w P \<Longrightarrow> (P \<Longrightarrow> Q) \<Longrightarrow> needs w Q"
  unfolding needs_def by blast

lemma needs_andThen: "needs w1 P \<Longrightarrow> needs w2 Q \<Longrightarrow> needs (\<lambda>s. andThen (w1 s) w2) (P \<and> Q)"
  unfolding needs_def andThen_Inr by blast

lemma needs_forEach:
  "(\<And>x. x \<in> set xs \<Longrightarrow> needs (w x) (p x)) \<Longrightarrow> needs (forEach w xs) (list_all p xs)"
proof (induction xs)
  case Nil
  show ?case by (simp add: needs_def)
next
  case (Cons x xs)
  have "needs (\<lambda>s. andThen (w x s) (forEach w xs)) (p x \<and> list_all p xs)"
    using Cons by (intro needs_andThen) simp_all
  then show ?case by (simp add: needs_def)
qed

lemma needs_after_copy: "needs w P \<Longrightarrow> needs (\<lambda>s. w (copyTo source s)) P"
  unfolding needs_def by blast

lemma needs_writeUInt8: "needs (writeUInt8 v) (v \<le> 255)"
  by (auto simp: needs_def writeUInt8_def split: if_splits)

lemma needs_writeUInt32LE: "needs (writeUInt32LE v) (v \<le> 4294967295)"
  by (auto simp: needs_def writeUInt32LE_def split: if_splits)

lemma needs_True: "needs w True"
  by (simp add: needs_def)

lemma needs_writeArray:
  "needs (writeArray array) (length array = 256 \<or> length array \<le> 255)"
proof -
  have "needs (\<lambda>s. andThen
        (writeUInt8 (if length array = MAX_ARRAY_LENGTH then 0 else length array) s)
        (forEach (\<lambda>element state. Inr (copyTo element state)) array))
      ((if length array = MAX_ARRAY_LENGTH then 0 else length array) \<le> 255 \<and> True)"
    by (intro needs_andThen needs_writeUInt8 needs_True)
  then show ?thesis
    unfolding writeArray_def Let_def
    by (auto simp: needs_def MAX_ARRAY_LENGTH_def split: if_splits)
qed

lemma needs_writeMatrix:
  "needs (writeMatrix matrix)
     ((length matrix = 256 \<or> length matrix \<le> 255)
       \<and> list_all (\<lambda>column. length column \<le> 255) matrix)"
proof -
  have "needs (\<lambda>s. andThen
        (writeUInt8 (if length matrix = MAX_ARRAY_LENGTH then 0 else length matrix) s) (\<lambda>s.
        andThen (forEach (\<lambda>column. writeUInt8 (length column)) matrix s)
          (forEach (forEach (\<lambda>element state. Inr (copyTo element state))) matrix)))
      ((if length matrix = MAX_ARRAY_LENGTH then 0 else length matrix) \<le> 255
        \<and> list_all (\<lambda>column. length column \<le> 255) matrix \<and> True)"
    by (intro needs_andThen needs_writeUInt8 needs_forEach needs_True)
  then show ?thesis
    unfolding writeMatrix_def Let_def
    by (auto simp: needs_def MAX_ARRAY_LENGTH_def split: if_splits)
qed

lemma needs_writeMerkleProof: "needs (writeMerkleProof prf leafSize) (fitsMerkleProof prf)"
proof -
  have "needs (\<lambda>s. andThen (writeArray (values prf) s) (\<lambda>s.
        andThen (writeMatrix (nodes prf) s) (writeUInt8 (depth prf))))
      ((length (values prf) = 256 \<or> length (values prf) \<le> 255)
        \<and> ((length (nodes prf) = 256 \<or> length (nodes prf) \<le> 255)
            \<and> list_all (\<lambda>column. length column \<le> 255) (nodes prf))
        \<and> depth prf \<le> 255)"
    by (intro needs_andThen needs_writeUInt8 needs_writeArray needs_writeMatrix)
  then show ?thesis
    unfolding writeMerkleProof_def fitsMerkleProof_def by (simp add: needs_def)
qed

lemma needs_serializeRemainder:
  "needs (serializeRemainder n array) (length array = 256 \<or> length array \<le> 255)"
proof -
  have "needs (\<lambda>s. andThen (writeUInt8 (if length array = 256 then 0 else length array) s)
        (forEach (writeBigInt n) array))
      ((if length array = 256 then 0 else length array) \<le> 255 \<and> True)"
    by (intro needs_andThen needs_writeUInt8 needs_True)
  then show ?thesis
    unfolding serializeRemainder_def Let_def by (auto simp: needs_def split: if_splits)
qed

lemma needs_serializeComponent:
  "needs (serializeComponent leafSize c)
     (fitsMerkleProof (columnProof c) \<and> fitsMerkleProof (polyProof c))"
proof -
  have "needs (\<lambda>s. andThen (writeMerkleProof (columnProof c) leafSize s)
        (writeMerkleProof (polyProof c) leafSize))
      (fitsMerkleProof (columnProof c) \<and> fitsMerkleProof (polyProof c))"
    by (intro needs_andThen needs_writeMerkleProof)
  from needs_after_copy [OF this, of "columnRoot c"] show ?thesis
    unfolding serializeComponent_def Let_def .
qed

lemma needs_proofWriter: "needs (proofWriter this prf) (fitsProof prf)"
proof -
  have c: "needs (forEach (serializeComponent (fieldElementSize this * 4))
        (components (ldProof prf)))
      (list_all (\<lambda>c. fitsMerkleProof (columnProof c) \<and> fitsMerkleProof (polyProof c))
        (components (ldProof prf)))"
    by (intro needs_forEach needs_serializeComponent)
  have t: "needs (forEach writeUInt32LE (traceShape prf))
      (list_all (\<lambda>level. level \<le> 4294967295) (traceShape prf))"
    by (intro needs_forEach needs_writeUInt32LE)
  have tail: "needs (\<lambda>s. andThen (writeUInt8 (length (components (ldProof prf))) s) (\<lambda>s.
        andThen (forEach (serializeComponent (fieldElementSize this * 4))
                   (components (ldProof prf)) s) (\<lambda>s.
        andThen (serializeRemainder (fieldElementSize this) (remainder (ldProof prf)) s) (\<lambda>s.
        andThen (writeUInt8 (length (traceShape prf)) s)
          (forEach writeUInt32LE (traceShape prf))))))
      (length (components (ldProof prf)) \<le> 255
        \<and> list_all (\<lambda>c. fitsMerkleProof (columnProof c) \<and> fitsMerkleProof (polyProof c))
            (components (ldProof prf))
        \<and> (length (remainder (ldProof prf)) = 256 \<or> length (remainder (ldProof prf)) \<le> 255)
        \<and> length (traceShape prf) \<le> 255
        \<and> list_all (\<lambda>level. level \<le> 4294967295) (traceShape prf))"
    by (intro needs_andThen needs_writeUInt8 c t needs_serializeRemainder)
  have lc: "needs (\<lambda>s. andThen (writeMerkleProof (lcProof (ldProof prf))
          (fieldElementSize this * 4) s) (\<lambda>s.
        andThen (writeUInt8 (length (components (ldProof prf))) s) (\<lambda>s.
        andThen (forEach (serializeComponent (fieldElementSize this * 4))
                   (components (ldProof prf)) s) (\<lambda>s.
        andThen (serializeRemainder (fieldElementSize this) (remainder (ldProof prf)) s) (\<lambda>s.
        andThen (writeUInt8 (length (traceShape prf)) s)
          (forEach writeUInt32LE (traceShape prf)))))))
      (fitsMerkleProof (lcProof (ldProof prf))
        \<and> length (components (ldProof prf)) \<le> 255
        \<and> list_all (\<lambda>c. fitsMerkleProof (columnProof c) \<and> fitsMerkleProof (polyProof c))
            (components (ldProof prf))
        \<and> (length (remainder (ldProof prf)) = 256 \<or> length (remainder (ldProof prf)) \<le> 255)
        \<and> length (traceShape prf) \<le> 255
        \<and> list_all (\<lambda>level. level \<le> 4294967295) (traceShape prf))"
    by (rule needs_andThen [OF needs_writeMerkleProof tail])
  have ev: "needs (\<lambda>s. andThen (writeMerkleProof (evProof prf)
          (getValueCount_proof this * fieldElementSize this) s) (\<lambda>s.
        andThen (writeMerkleProof (lcProof (ldProof prf)) (fieldElementSize this * 4)
                   (copyTo (lcRoot (ldProof prf)) s)) (\<lambda>s.
        andThen (writeUInt8 (length (components (ldProof prf))) s) (\<lambda>s.
        andThen (forEach (serializeComponent (fieldElementSize this * 4))
                   (components (ldProof prf)) s) (\<lambda>s.
        andThen (serializeRemainder (fieldElementSize this) (remainder (ldProof prf)) s) (\<lambda>s.
        andThen (writeUInt8 (length (traceShape prf)) s)
          (forEach writeUInt32LE (traceShape prf))))))))
      (fitsMerkleProof (evProof prf) \<and> fitsMerkleProof (lcProof (ldProof prf))
        \<and> length (components (ldProof prf)) \<le> 255
        \<and> list_all (\<lambda>c. fitsMerkleProof (columnProof c) \<and> fitsMerkleProof (polyProof c))
            (components (ldProof prf))
        \<and> (length (remainder (ldProof prf)) = 256 \<or> length (remainder (ldProof prf)) \<le> 255)
        \<and> length (traceShape prf) \<le> 255
        \<and> list_all (\<lambda>level. level \<le> 4294967295) (traceShape prf))"
    by (rule needs_andThen [OF needs_writeMerkleProof needs_after_copy [OF lc]])
  from needs_after_copy [OF ev, of "evRoot prf"] show ?thesis
    unfolding proofWriter_def fitsProof_def .
qed


subsection \<open>The size is the length of the wire format\<close>

lemma sizeOfArray_Inr:
  assumes "sizeOfArray array = Inr n"
  shows "n = length (encodeArray array) \<and> array \<noteq> [] \<and> length array \<le> 256"
  using assms
  by (auto simp: sizeOfArray_def encodeArray_def addLengths_sum length_concat
      MAX_ARRAY_LENGTH_def split: if_splits)

lemma sizeOfColumns_Inr:
  "sizeOfColumns n matrix = Inr k \<Longrightarrow> k = n + length (concat (map concat matrix))"
proof (induction matrix arbitrary: n)
  case Nil
  then show ?case by simp
next
  case (Cons column matrix)
  from Cons.prems have "sizeOfColumns (addLengths n column) matrix = Inr k"
    by (simp split: if_splits)
  from Cons.IH [OF this] show ?case
    by (simp add: addLengths_sum length_concat)
qed

lemma sizeOfMatrix_Inr:
  "sizeOfMatrix matrix = Inr n \<Longrightarrow> n = length (encodeMatrix matrix)"
  by (auto simp: sizeOfMatrix_def encodeMatrix_def dest: sizeOfColumns_Inr split: if_splits)

lemma sizeOfMerkleProof_Inr:
  assumes "sizeOfMerkleProof prf = Inr n"
  shows "n = length (encodeMerkleProof prf) \<and> values prf \<noteq> []"
proof -
  from assms obtain a m where a: "sizeOfArray (values prf) = Inr a"
    and m: "sizeOfMatrix (nodes prf) = Inr m" and n: "n = 0 + a + m + 1"
    unfolding sizeOfMerkleProof_def andThen_Inr by auto
  show ?thesis
    using sizeOfArray_Inr [OF a] sizeOfMatrix_Inr [OF m] n
    by (simp add: encodeMerkleProof_def)
qed

lemma sizeOfComponents_Inr:
  "sizeOfComponents digestSize cs = Inr n
   \<Longrightarrow> list_all (\<lambda>c. length (columnRoot c) = digestSize) cs
   \<Longrightarrow> n = length (concat (map encodeComponent cs))"
proof (induction cs arbitrary: n)
  case Nil
  then show ?case by simp
next
  case (Cons c cs)
  from Cons.prems(1) obtain a b rest where
    a: "sizeOfMerkleProof (columnProof c) = Inr a"
    and b: "sizeOfMerkleProof (polyProof c) = Inr b"
    and rest: "sizeOfComponents digestSize cs = Inr rest"
    and n: "n = digestSize + a + b + rest"
    unfolding sizeOfComponents.simps andThen_Inr by auto
  have "rest = length (concat (map encodeComponent cs))"
    using Cons.IH [OF rest] Cons.prems(2) by simp
  moreover have "length (encodeComponent c) = digestSize + a + b"
    using sizeOfMerkleProof_Inr [OF a] sizeOfMerkleProof_Inr [OF b] Cons.prems(2)
    by (simp add: encodeComponent_def)
  ultimately show ?case using n by simp
qed

lemma length_concat_littleEndian:
  "length (concat (map (littleEndian n) xs)) = length xs * n"
  by (induction xs) simp_all

lemma sizeOfRemainder_Inr:
  assumes "sizeOfRemainder array n = Inr k"
  shows "k = length (encodeRemainder n array) \<and> length array \<le> 256"
  using assms
  by (auto simp: sizeOfRemainder_def encodeRemainder_def length_concat_littleEndian
      MAX_ARRAY_LENGTH_def split: if_splits)

lemma sizeOf_Inr:
  assumes "sizeOf prf (fieldElementSize this) (hashDigestSize this) = Inr sz"
    and "rootsOfDigestSize this prf"
  shows "total sz = length (encodeProof this prf)"
proof -
  from assms(1) obtain ev lc levels r where
    ev: "sizeOfMerkleProof (evProof prf) = Inr ev"
    and lc: "sizeOfMerkleProof (lcProof (ldProof prf)) = Inr lc"
    and levels: "sizeOfComponents (hashDigestSize this) (components (ldProof prf)) = Inr levels"
    and r: "sizeOfRemainder (remainder (ldProof prf)) (fieldElementSize this) = Inr r"
    and sz: "total sz = hashDigestSize this + ev + (hashDigestSize this + lc + 1 + levels + r)
        + (1 + 4 * length (traceShape prf))"
    unfolding sizeOf_def andThen_Inr by auto
  have roots: "length (evRoot prf) = hashDigestSize this"
    "length (lcRoot (ldProof prf)) = hashDigestSize this"
    "list_all (\<lambda>c. length (columnRoot c) = hashDigestSize this) (components (ldProof prf))"
    using assms(2) unfolding rootsOfDigestSize_def list_all_iff by blast+
  show ?thesis
    using sizeOfMerkleProof_Inr [OF ev] sizeOfMerkleProof_Inr [OF lc]
      sizeOfComponents_Inr [OF levels roots(3)] sizeOfRemainder_Inr [OF r] sz roots(1,2)
    by (simp add: encodeProof_def encodeTraceShape_def length_concat_littleEndian)
qed

lemma serializeProof_encode:
  assumes "serializeProof this junk prf = Inr buffer" and "rootsOfDigestSize this prf"
  shows "buffer = encodeProof this prf" and "fitsProof prf"
    and "\<exists>sz. sizeOf prf (fieldElementSize this) (hashDigestSize this) = Inr sz"
proof -
  from assms(1) obtain sz s where
    sz: "sizeOf prf (fieldElementSize this) (hashDigestSize this) = Inr sz"
    and s: "proofWriter this prf (allocUnsafe junk (total sz), 0) = Inr s"
    and b: "buffer = fst s"
    unfolding serializeProof_def serializeProofWith_writer andThen_Inr by auto
  show fits: "fitsProof prf" using needs_proofWriter s by (rule needsD)
  have len: "0 + length (encodeProof this prf) \<le> length (allocUnsafe junk (total sz))"
    using sizeOf_Inr [OF sz assms(2)] by simp
  have "s = (writeAt (allocUnsafe junk (total sz)) 0 (encodeProof this prf),
      0 + length (encodeProof this prf))"
    using writesD [OF writes_proofWriter [OF fits] len] s by simp
  then show "buffer = encodeProof this prf"
    using b sizeOf_Inr [OF sz assms(2)] by (simp add: writeAt_all)
  show "\<exists>sz. sizeOf prf (fieldElementSize this) (hashDigestSize this) = Inr sz"
    using sz by blast
qed

lemma encode_serializeProof:
  assumes "fitsProof prf" and "rootsOfDigestSize this prf"
    and "sizeOf prf (fieldElementSize this) (hashDigestSize this) = Inr sz"
  shows "serializeProof this junk prf = Inr (encodeProof this prf)"
proof -
  have len: "0 + length (encodeProof this prf) \<le> length (allocUnsafe junk (total sz))"
    using sizeOf_Inr [OF assms(3,2)] by simp
  show ?thesis
    unfolding serializeProof_def serializeProofWith_writer assms(3)
    using writesD [OF writes_proofWriter [OF assms(1)] len] sizeOf_Inr [OF assms(3,2)]
    by (simp add: writeAt_all)
qed

subsection \<open>Readers invert the wire format\<close>

text \<open>
  A reader \<open>reads\<close> a value from a byte sequence when, wherever the bytes stand in a
  buffer, it returns the value and the offset after the bytes; a parser \<open>yields\<close> a value
  when it returns the value alone.
\<close>

definition reads :: "(buffer \<Rightarrow> nat \<Rightarrow> error + 'a \<times> nat) \<Rightarrow> byte list \<Rightarrow> 'a \<Rightarrow> bool" where
  "reads r bytes x \<longleftrightarrow>
     (\<forall>pre post. r (pre @ bytes @ post) (length pre) = Inr (x, length pre + length bytes))"

definition yields :: "(buffer \<Rightarrow> nat \<Rightarrow> error + 'a) \<Rightarrow> byte list \<Rightarrow> 'a \<Rightarrow> bool" where
  "yields r bytes x \<longleftrightarrow> (\<forall>pre post. r (pre @ bytes @ post) (length pre) = Inr x)"

lemma readsD:
  "reads r bytes x \<Longrightarrow> r (pre @ bytes @ post) (length pre) = Inr (x, length pre + length bytes)"
  unfolding reads_def by blast

lemma yieldsD: "yields r bytes x \<Longrightarrow> r (pre @ bytes @ post) (length pre) = Inr x"
  unfolding yields_def by blast

lemma reads_bind:
  assumes "reads r1 a x" "reads (r2 x) b y"
  shows "reads (\<lambda>buffer offset. andThen (r1 buffer offset) (\<lambda>(x, offset). r2 x buffer offset))
           (a @ b) y"
  unfolding reads_def
proof (intro allI, goal_cases)
  case (1 pre post)
  have 1: "r1 (pre @ a @ b @ post) (length pre) = Inr (x, length pre + length a)"
    using readsD [OF assms(1), of pre "b @ post"] by simp
  have 2: "r2 x (pre @ a @ b @ post) (length pre + length a)
      = Inr (y, length pre + length a + length b)"
    using readsD [OF assms(2), of "pre @ a" post] by simp
  show ?case by (simp add: 1 2 add.assoc)
qed

lemma yields_bind:
  assumes "reads r1 a x" "yields (r2 x) b y"
  shows "yields (\<lambda>buffer offset. andThen (r1 buffer offset) (\<lambda>(x, offset). r2 x buffer offset))
           (a @ b) y"
  unfolding yields_def
proof (intro allI, goal_cases)
  case (1 pre post)
  have 1: "r1 (pre @ a @ b @ post) (length pre) = Inr (x, length pre + length a)"
    using readsD [OF assms(1), of pre "b @ post"] by simp
  have 2: "r2 x (pre @ a @ b @ post) (length pre + length a) = Inr y"
    using yieldsD [OF assms(2), of "pre @ a" post] by simp
  show ?case by (simp add: 1 2)
qed

lemma yields_final:
  assumes "reads r a x"
  shows "yields (\<lambda>buffer offset. andThen (r buffer offset) (\<lambda>(x, offset). Inr (f x))) a (f x)"
  unfolding yields_def using readsD [OF assms] by simp

lemma reads_final:
  assumes "reads r a x"
  shows "reads (\<lambda>buffer offset. andThen (r buffer offset) (\<lambda>(x, offset). Inr (f x, offset))) a (f x)"
  unfolding reads_def using readsD [OF assms] by simp

lemma readUInt8_at: "readUInt8 (pre @ b # post) (length pre) = Inr (unat b)"
  by (simp add: readUInt8_def)

lemma unat_byte: "v \<le> 255 \<Longrightarrow> unat (of_nat v :: byte) = v"
  by (simp add: unat_of_nat)

lemma reads_uint8_bind:
  assumes "v \<le> 255" "reads (r2 v) b y"
  shows "reads (\<lambda>buffer offset. andThen (readUInt8 buffer offset) (\<lambda>v. r2 v buffer (offset + 1)))
           ([of_nat v] @ b) y"
  unfolding reads_def
proof (intro allI, goal_cases)
  case (1 pre post)
  have 2: "r2 v (pre @ of_nat v # b @ post) (Suc (length pre))
      = Inr (y, Suc (length pre + length b))"
    using readsD [OF assms(2), of "pre @ [of_nat v]" post] by simp
  show ?case
    using 2 by (simp add: readUInt8_at unat_byte [OF assms(1)])
qed

lemma yields_uint8_bind:
  assumes "v \<le> 255" "yields (r2 v) b y"
  shows "yields (\<lambda>buffer offset. andThen (readUInt8 buffer offset) (\<lambda>v. r2 v buffer (offset + 1)))
           ([of_nat v] @ b) y"
  unfolding yields_def
proof (intro allI, goal_cases)
  case (1 pre post)
  have 2: "r2 v (pre @ of_nat v # b @ post) (Suc (length pre)) = Inr y"
    using yieldsD [OF assms(2), of "pre @ [of_nat v]" post] by simp
  show ?case
    using 2 by (simp add: readUInt8_at unat_byte [OF assms(1)])
qed

lemma readEach_Cons:
  "readEach r (k # ks) = (\<lambda>buffer offset. andThen (r k buffer offset) (\<lambda>(x, offset).
     andThen (readEach r ks buffer offset) (\<lambda>(ys, offset). Inr (x # ys, offset))))"
  by (simp add: fun_eq_iff)

lemma reads_readEach:
  "length ks = length xs
   \<Longrightarrow> (\<And>k x. (k, x) \<in> set (zip ks xs) \<Longrightarrow> reads (r k) (e x) x)
   \<Longrightarrow> reads (readEach r ks) (concat (map e xs)) xs"
proof (induction ks arbitrary: xs)
  case Nil
  then show ?case by (simp add: reads_def)
next
  case (Cons k ks)
  then obtain x xs' where xs: "xs = x # xs'" by (cases xs) auto
  have hd: "reads (r k) (e x) x" using Cons.prems(2) [of k x] xs by simp
  have tl: "reads (readEach r ks) (concat (map e xs')) xs'"
    using Cons.prems xs by (intro Cons.IH) auto
  have tl': "reads (\<lambda>buffer offset. andThen (readEach r ks buffer offset)
        (\<lambda>(ys, offset). Inr (x # ys, offset))) (concat (map e xs')) (x # xs')"
    using reads_final [OF tl, of "(#) x"] .
  have "reads (\<lambda>buffer offset. andThen (r k buffer offset) (\<lambda>(x, offset).
        andThen (readEach r ks buffer offset) (\<lambda>(ys, offset). Inr (x # ys, offset))))
      (e x @ concat (map e xs')) (x # xs')"
    using hd tl' by (rule reads_bind [where ?r2.0 = "\<lambda>x buffer offset.
        andThen (readEach r ks buffer offset) (\<lambda>(ys, offset). Inr (x # ys, offset))"])
  then show ?case unfolding xs readEach_Cons by simp
qed

lemma reads_readBuffer: "length bytes = n \<Longrightarrow> reads (readBuffer junk n) bytes bytes"
  by (auto simp: reads_def readBuffer_def copyFrom_def allocUnsafe_def Let_def)

lemma littleEndianValue_littleEndian:
  "v < 256 ^ n \<Longrightarrow> littleEndianValue (littleEndian n v) = v"
proof (induction n arbitrary: v)
  case 0
  then show ?case by simp
next
  case (Suc n)
  have "v div 256 < 256 ^ n"
    using Suc.prems by (simp add: less_mult_imp_div_less mult.commute)
  from Suc.IH [OF this] show ?case
    by (simp add: unat_of_nat)
qed

lemma reads_bigInt:
  assumes "v < 256 ^ n"
  shows "reads (\<lambda>buffer offset. andThen (readBigInt buffer offset n) (\<lambda>v. Inr (v, offset + n)))
           (littleEndian n v) v"
  unfolding reads_def
  by (simp add: readBigInt_def littleEndianValue_littleEndian [OF assms])

lemma reads_uint32:
  assumes "v \<le> 4294967295"
  shows "reads (\<lambda>buffer offset. andThen (readUInt32LE buffer offset)
                  (\<lambda>level. Inr (level, offset + 4)))
           (littleEndian 4 v) v"
proof -
  have "v < 256 ^ 4" using assms by simp
  from littleEndianValue_littleEndian [OF this] show ?thesis
    unfolding reads_def by (simp add: readUInt32LE_def)
qed


lemma zip_upt_length: "(k, x) \<in> set (zip [0..<length xs] xs) \<Longrightarrow> x \<in> set xs"
  by (rule set_zip_rightD)

lemma reads_buffers:
  assumes "list_all (\<lambda>x. length x = n) xs"
  shows "reads (readEach (\<lambda>i. readBuffer junk n) [0..<length xs]) (concat xs) xs"
proof -
  have "reads (readEach (\<lambda>i. readBuffer junk n) [0..<length xs]) (concat (map (\<lambda>x. x) xs)) xs"
  proof (rule reads_readEach)
    show "length [0..<length xs] = length xs" by simp
  next
    fix k x assume "(k, x) \<in> set (zip [0..<length xs] xs)"
    then have "x \<in> set xs" by (rule set_zip_rightD)
    then show "reads (readBuffer junk n) x x"
      using assms by (intro reads_readBuffer) (simp add: list_all_iff)
  qed
  then show ?thesis by simp
qed

lemma count_byte_read:
  assumes "n \<noteq> 0" "n \<le> 256"
  shows "(if unat (of_nat n :: byte) = 0 then MAX_ARRAY_LENGTH else unat (of_nat n :: byte)) = n"
proof (cases "n = 256")
  case True
  then show ?thesis by (simp add: MAX_ARRAY_LENGTH_def)
next
  case False
  with assms have "n \<le> 255" by simp
  then show ?thesis using assms(1) by (simp add: unat_byte)
qed

lemma reads_count_bind:
  assumes "n \<noteq> 0" "n \<le> 256" "reads (r2 n) b y"
  shows "reads (\<lambda>buffer offset. andThen (readUInt8 buffer offset) (\<lambda>c.
             r2 (if c = 0 then MAX_ARRAY_LENGTH else c) buffer (offset + 1)))
           ([of_nat n] @ b) y"
  unfolding reads_def
proof (intro allI, goal_cases)
  case (1 pre post)
  have 2: "r2 n (pre @ of_nat n # b @ post) (Suc (length pre))
      = Inr (y, Suc (length pre + length b))"
    using readsD [OF assms(3), of "pre @ [of_nat n]" post] by simp
  show ?case
    using 2 by (simp add: readUInt8_at count_byte_read [OF assms(1,2)])
qed

lemma reads_readArray:
  assumes "array \<noteq> []" "length array \<le> 256" "list_all (\<lambda>x. length x = n) array"
  shows "reads (readArray junk n) (encodeArray array) array"
proof -
  have "length array \<noteq> 0" using assms(1) by simp
  then have "reads (\<lambda>buffer offset. andThen (readUInt8 buffer offset) (\<lambda>c.
        readEach (\<lambda>i. readBuffer junk n) [0..<if c = 0 then MAX_ARRAY_LENGTH else c] buffer
          (offset + 1)))
      ([of_nat (length array)] @ concat array) array"
    using assms(2) reads_buffers [OF assms(3)]
    by (rule reads_count_bind [where ?r2.0 = "\<lambda>count. readEach (\<lambda>i. readBuffer junk n) [0..<count]"])
  then show ?thesis
    unfolding readArray_def encodeArray_def Let_def by (simp add: fun_eq_iff [symmetric])
qed


lemma reads_columnLengths:
  assumes "list_all (\<lambda>column. length column \<le> 255) matrix"
  shows "reads (readEach (\<lambda>i buffer offset.
                  andThen (readUInt8 buffer offset) (\<lambda>columnLength. Inr (columnLength, offset + 1)))
                [0..<length matrix])
           (map (\<lambda>column. of_nat (length column)) matrix) (map length matrix)"
proof -
  have one: "reads (\<lambda>buffer offset. andThen (readUInt8 buffer offset)
        (\<lambda>columnLength. Inr (columnLength, offset + 1))) [of_nat l] l" if "l \<le> 255" for l
    unfolding reads_def by (simp add: readUInt8_at unat_byte [OF that])
  have "reads (readEach (\<lambda>i buffer offset.
          andThen (readUInt8 buffer offset) (\<lambda>columnLength. Inr (columnLength, offset + 1)))
        [0..<length matrix])
      (concat (map (\<lambda>l. [of_nat l]) (map length matrix))) (map length matrix)"
  proof (rule reads_readEach)
    show "length [0..<length matrix] = length (map length matrix)" by simp
  next
    fix k l assume "(k, l) \<in> set (zip [0..<length matrix] (map length matrix))"
    then have "l \<in> set (map length matrix)" by (rule set_zip_rightD)
    then have "l \<le> 255" using assms by (auto simp: list_all_iff)
    then show "reads (\<lambda>buffer offset. andThen (readUInt8 buffer offset)
        (\<lambda>columnLength. Inr (columnLength, offset + 1))) [of_nat l] l"
      by (rule one)
  qed
  moreover have "concat (map (\<lambda>l. [of_nat l :: byte]) (map length matrix))
      = map (\<lambda>column. of_nat (length column)) matrix"
    by (induction matrix) simp_all
  ultimately show ?thesis by simp
qed

lemma reads_columns:
  assumes "list_all (list_all (\<lambda>x. length x = n)) matrix"
  shows "reads (readEach (\<lambda>columnLength. readEach (\<lambda>j. readBuffer junk n) [0..<columnLength])
                (map length matrix))
           (concat (map concat matrix)) matrix"
proof (rule reads_readEach)
  show "length (map length matrix) = length matrix" by simp
next
  fix k column assume "(k, column) \<in> set (zip (map length matrix) matrix)"
  then have "k = length column" and "column \<in> set matrix"
    by (auto simp: zip_map1 zip_same)
  then show "reads (readEach (\<lambda>j. readBuffer junk n) [0..<k]) (concat column) column"
    using assms reads_buffers [of n column junk] by (simp add: list_all_iff)
qed

lemma reads_readMatrix:
  assumes "matrix \<noteq> []" "length matrix \<le> 256"
    and "list_all (\<lambda>column. length column \<le> 255) matrix"
    and "list_all (list_all (\<lambda>x. length x = n)) matrix"
  shows "reads (readMatrix junk n) (encodeMatrix matrix) matrix"
proof -
  have nonempty: "length matrix \<noteq> 0" using assms(1) by simp
  have inner: "reads (\<lambda>buffer offset.
        andThen (readEach (\<lambda>i buffer offset.
                   andThen (readUInt8 buffer offset)
                     (\<lambda>columnLength. Inr (columnLength, offset + 1)))
                 [0..<length matrix] buffer offset) (\<lambda>(columnLengths, offset).
        readEach (\<lambda>columnLength. readEach (\<lambda>j. readBuffer junk n) [0..<columnLength])
          columnLengths buffer offset))
      (map (\<lambda>column. of_nat (length column)) matrix @ concat (map concat matrix)) matrix"
    using reads_columnLengths [OF assms(3)] reads_columns [OF assms(4)]
    by (rule reads_bind [where ?r2.0 = "\<lambda>columnLengths.
        readEach (\<lambda>columnLength. readEach (\<lambda>j. readBuffer junk n) [0..<columnLength])
          columnLengths"])
  have "reads (\<lambda>buffer offset. andThen (readUInt8 buffer offset) (\<lambda>c.
        andThen (readEach (\<lambda>i buffer offset.
                   andThen (readUInt8 buffer offset)
                     (\<lambda>columnLength. Inr (columnLength, offset + 1)))
                 [0..<if c = 0 then MAX_ARRAY_LENGTH else c] buffer (offset + 1))
          (\<lambda>(columnLengths, offset).
        readEach (\<lambda>columnLength. readEach (\<lambda>j. readBuffer junk n) [0..<columnLength])
          columnLengths buffer offset)))
      ([of_nat (length matrix)] @ map (\<lambda>column. of_nat (length column)) matrix
         @ concat (map concat matrix)) matrix"
    using nonempty assms(2) inner
    by (rule reads_count_bind [where ?r2.0 = "\<lambda>columnCount buffer offset.
        andThen (readEach (\<lambda>i buffer offset.
                   andThen (readUInt8 buffer offset)
                     (\<lambda>columnLength. Inr (columnLength, offset + 1)))
                 [0..<columnCount] buffer offset) (\<lambda>(columnLengths, offset).
        readEach (\<lambda>columnLength. readEach (\<lambda>j. readBuffer junk n) [0..<columnLength])
          columnLengths buffer offset)"])
  then show ?thesis
    unfolding readMatrix_def encodeMatrix_def Let_def by simp
qed

lemma reads_readMerkleProof:
  assumes "fitsMerkleProof prf" "wellFormedMerkleProof leafSize digestSize prf"
    and "values prf \<noteq> []"
  shows "reads (\<lambda>buffer offset. readMerkleProof junk buffer offset leafSize digestSize)
           (encodeMerkleProof prf) prf"
proof -
  have lengths: "length (values prf) \<le> 256" "length (nodes prf) \<le> 256"
    using assms(1) unfolding fitsMerkleProof_def by auto
  have columns: "list_all (\<lambda>column. length column \<le> 255) (nodes prf)"
    using assms(1) unfolding fitsMerkleProof_def by blast
  have sizes: "list_all (\<lambda>leaf. length leaf = leafSize) (values prf)" "nodes prf \<noteq> []"
    "list_all (list_all (\<lambda>node. length node = digestSize)) (nodes prf)"
    using assms(2) unfolding wellFormedMerkleProof_def by blast+
  have d: "reads (\<lambda>buffer offset. andThen (readUInt8 buffer offset) (\<lambda>d.
        Inr (\<lparr> values = values prf, nodes = nodes prf, depth = d \<rparr>, offset + 1)))
      [of_nat (depth prf)] prf"
    using assms(1) unfolding reads_def fitsMerkleProof_def
    by (simp add: readUInt8_at unat_byte)
  have rm: "reads (readMatrix junk digestSize) (encodeMatrix (nodes prf)) (nodes prf)"
    using sizes(2) lengths(2) columns sizes(3) by (rule reads_readMatrix)
  have ra: "reads (readArray junk leafSize) (encodeArray (values prf)) (values prf)"
    using assms(3) lengths(1) sizes(1) by (rule reads_readArray)
  have m: "reads (\<lambda>buffer offset. andThen (readMatrix junk digestSize buffer offset)
        (\<lambda>(ns, offset). andThen (readUInt8 buffer offset) (\<lambda>d.
        Inr (\<lparr> values = values prf, nodes = ns, depth = d \<rparr>, offset + 1))))
      (encodeMatrix (nodes prf) @ [of_nat (depth prf)]) prf"
    using rm d
    by (rule reads_bind [where ?r2.0 = "\<lambda>ns buffer offset.
        andThen (readUInt8 buffer offset) (\<lambda>d.
        Inr (\<lparr> values = values prf, nodes = ns, depth = d \<rparr>, offset + 1))"])
  have "reads (\<lambda>buffer offset. andThen (readArray junk leafSize buffer offset)
        (\<lambda>(vs, offset). andThen (readMatrix junk digestSize buffer offset)
        (\<lambda>(ns, offset). andThen (readUInt8 buffer offset) (\<lambda>d.
        Inr (\<lparr> values = vs, nodes = ns, depth = d \<rparr>, offset + 1)))))
      (encodeArray (values prf) @ encodeMatrix (nodes prf) @ [of_nat (depth prf)]) prf"
    using ra m
    by (rule reads_bind [where ?r2.0 = "\<lambda>vs buffer offset.
        andThen (readMatrix junk digestSize buffer offset)
        (\<lambda>(ns, offset). andThen (readUInt8 buffer offset) (\<lambda>d.
        Inr (\<lparr> values = vs, nodes = ns, depth = d \<rparr>, offset + 1)))"])
  then show ?thesis
    unfolding readMerkleProof_def encodeMerkleProof_def by simp
qed


lemma reads_parseComponent:
  assumes "fitsMerkleProof (columnProof c)" "fitsMerkleProof (polyProof c)"
    and "length (columnRoot c) = hashDigestSize this"
    and "wellFormedMerkleProof leafSize (hashDigestSize this) (columnProof c)"
    and "wellFormedMerkleProof leafSize (hashDigestSize this) (polyProof c)"
    and "values (columnProof c) \<noteq> []" "values (polyProof c) \<noteq> []"
  shows "reads (parseComponent this junk leafSize) (encodeComponent c) c"
proof -
  let ?rmp = "\<lambda>buffer offset. readMerkleProof junk buffer offset leafSize (hashDigestSize this)"
  have p: "reads (\<lambda>buffer offset. andThen (?rmp buffer offset) (\<lambda>(polyProofInfo, offset).
        Inr (\<lparr> columnRoot = columnRoot c, columnProof = columnProof c,
               polyProof = polyProofInfo \<rparr>, offset)))
      (encodeMerkleProof (polyProof c)) c"
  proof -
    have eq: "\<lparr> columnRoot = columnRoot c, columnProof = columnProof c,
        polyProof = polyProof c \<rparr> = c"
      by simp
    show ?thesis
      using reads_final [OF reads_readMerkleProof [OF assms(2,5,7)], of junk
          "\<lambda>p. \<lparr> columnRoot = columnRoot c, columnProof = columnProof c, polyProof = p \<rparr>"]
      unfolding eq .
  qed
  have cp: "reads (\<lambda>buffer offset. andThen (?rmp buffer offset) (\<lambda>(columnProofInfo, offset).
        andThen (?rmp buffer offset) (\<lambda>(polyProofInfo, offset).
        Inr (\<lparr> columnRoot = columnRoot c, columnProof = columnProofInfo,
               polyProof = polyProofInfo \<rparr>, offset))))
      (encodeMerkleProof (columnProof c) @ encodeMerkleProof (polyProof c)) c"
    using reads_readMerkleProof [OF assms(1,4,6)] p
    by (rule reads_bind [where ?r2.0 = "\<lambda>columnProofInfo buffer offset.
        andThen (?rmp buffer offset) (\<lambda>(polyProofInfo, offset).
        Inr (\<lparr> columnRoot = columnRoot c, columnProof = columnProofInfo,
               polyProof = polyProofInfo \<rparr>, offset))"])
  have "reads (\<lambda>buffer offset. andThen (readBuffer junk (hashDigestSize this) buffer offset)
        (\<lambda>(root, offset). andThen (?rmp buffer offset) (\<lambda>(columnProofInfo, offset).
        andThen (?rmp buffer offset) (\<lambda>(polyProofInfo, offset).
        Inr (\<lparr> columnRoot = root, columnProof = columnProofInfo,
               polyProof = polyProofInfo \<rparr>, offset)))))
      (columnRoot c @ encodeMerkleProof (columnProof c) @ encodeMerkleProof (polyProof c)) c"
    using reads_readBuffer [OF assms(3)] cp
    by (rule reads_bind [where ?r2.0 = "\<lambda>root buffer offset.
        andThen (?rmp buffer offset) (\<lambda>(columnProofInfo, offset).
        andThen (?rmp buffer offset) (\<lambda>(polyProofInfo, offset).
        Inr (\<lparr> columnRoot = root, columnProof = columnProofInfo,
               polyProof = polyProofInfo \<rparr>, offset)))"])
  then show ?thesis
    unfolding parseComponent_def encodeComponent_def by simp
qed

lemma reads_elements:
  assumes "list_all (\<lambda>v. v < 256 ^ n) array"
  shows "reads (readEach (\<lambda>i buffer offset.
                  andThen (readBigInt buffer offset n) (\<lambda>v. Inr (v, offset + n)))
                [0..<length array])
           (concat (map (littleEndian n) array)) array"
proof (rule reads_readEach)
  show "length [0..<length array] = length array" by simp
next
  fix k v assume "(k, v) \<in> set (zip [0..<length array] array)"
  then have "v \<in> set array" by (rule set_zip_rightD)
  then have "v < 256 ^ n" using assms by (simp add: list_all_iff)
  then show "reads (\<lambda>buffer offset. andThen (readBigInt buffer offset n)
      (\<lambda>v. Inr (v, offset + n))) (littleEndian n v) v"
    by (rule reads_bigInt)
qed

lemma remainder_length_read:
  assumes "array \<noteq> []" "length array \<le> 256"
  shows "(let b = unat (if length array = 256 then 0 else of_nat (length array) :: byte)
          in if b = 0 then MAX_ARRAY_LENGTH else b) = length array"
proof (cases "length array = 256")
  case True
  then show ?thesis by (simp add: MAX_ARRAY_LENGTH_def)
next
  case False
  with assms have "length array \<le> 255" "length array \<noteq> 0" by simp_all
  then show ?thesis using False by (simp add: unat_byte Let_def)
qed

lemma reads_parseRemainder:
  assumes "array \<noteq> []" "length array \<le> 256" "list_all (\<lambda>v. v < 256 ^ n) array"
  shows "reads (parseRemainder n) (encodeRemainder n array) array"
  unfolding reads_def
proof (intro allI, goal_cases)
  case (1 pre post)
  let ?b = "(if length array = 256 then 0 else of_nat (length array)) :: byte"
  have len: "(if unat ?b = 0 then MAX_ARRAY_LENGTH else unat ?b) = length array"
    using remainder_length_read [OF assms(1,2)] by (simp add: Let_def)
  have "readEach (\<lambda>i buffer offset.
          andThen (readBigInt buffer offset n) (\<lambda>v. Inr (v, offset + n)))
        [0..<length array] ((pre @ [?b]) @ concat (map (littleEndian n) array) @ post)
        (length (pre @ [?b]))
      = Inr (array, length (pre @ [?b]) + length (concat (map (littleEndian n) array)))"
    by (rule readsD [OF reads_elements [OF assms(3)]])
  then show ?case
    unfolding parseRemainder_def encodeRemainder_def Let_def
    by (simp add: readUInt8_at len)
qed

lemma reads_traceShape:
  assumes "list_all (\<lambda>level. level \<le> 4294967295) shape"
  shows "reads (readEach (\<lambda>i buffer offset.
                  andThen (readUInt32LE buffer offset) (\<lambda>level. Inr (level, offset + 4)))
                [0..<length shape])
           (concat (map (littleEndian 4) shape)) shape"
proof (rule reads_readEach)
  show "length [0..<length shape] = length shape" by simp
next
  fix k v assume "(k, v) \<in> set (zip [0..<length shape] shape)"
  then have "v \<in> set shape" by (rule set_zip_rightD)
  then have "v \<le> 4294967295" using assms by (simp add: list_all_iff)
  then show "reads (\<lambda>buffer offset. andThen (readUInt32LE buffer offset)
      (\<lambda>level. Inr (level, offset + 4))) (littleEndian 4 v) v"
    by (rule reads_uint32)
qed

lemma reads_components:
  assumes "list_all (\<lambda>c. fitsMerkleProof (columnProof c) \<and> fitsMerkleProof (polyProof c)) cs"
    and "list_all (\<lambda>c. length (columnRoot c) = hashDigestSize this
                   \<and> wellFormedMerkleProof leafSize (hashDigestSize this) (columnProof c)
                   \<and> wellFormedMerkleProof leafSize (hashDigestSize this) (polyProof c)) cs"
    and "list_all (\<lambda>c. values (columnProof c) \<noteq> [] \<and> values (polyProof c) \<noteq> []) cs"
  shows "reads (readEach (\<lambda>i. parseComponent this junk leafSize) [0..<length cs])
           (concat (map encodeComponent cs)) cs"
proof (rule reads_readEach)
  show "length [0..<length cs] = length cs" by simp
next
  fix k c assume "(k, c) \<in> set (zip [0..<length cs] cs)"
  then have "c \<in> set cs" by (rule set_zip_rightD)
  then show "reads (parseComponent this junk leafSize) (encodeComponent c) c"
    using assms unfolding list_all_iff by (intro reads_parseComponent) blast+
qed


text \<open>\<open>parseProof\<close> as a parser that starts at an offset.\<close>

definition proofReader ::
  "'a proofSerializer_scheme \<Rightarrow> (nat \<Rightarrow> byte) \<Rightarrow> buffer \<Rightarrow> nat \<Rightarrow> error + starkProof" where
  "proofReader this junk =
     (\<lambda>buffer offset.
        andThen (readBuffer junk (hashDigestSize this) buffer offset) (\<lambda>(root, offset).
        andThen (readMerkleProof junk buffer offset
                   (getValueCount_proof this * fieldElementSize this) (hashDigestSize this))
          (\<lambda>(evProofInfo, offset).
        andThen (readBuffer junk (hashDigestSize this) buffer offset) (\<lambda>(lcRootBuffer, offset).
        andThen (readMerkleProof junk buffer offset (fieldElementSize this * 4)
                   (hashDigestSize this))
          (\<lambda>(lcProofInfo, offset).
        andThen (readUInt8 buffer offset) (\<lambda>componentCount.
        andThen (readEach (\<lambda>i. parseComponent this junk (fieldElementSize this * 4))
                   [0..<componentCount] buffer (offset + 1))
          (\<lambda>(friComponents, offset).
        andThen (parseRemainder (fieldElementSize this) buffer offset)
          (\<lambda>(friRemainder, offset).
        andThen (readUInt8 buffer offset) (\<lambda>traceDepth.
        andThen (readEach (\<lambda>i buffer offset.
                    andThen (readUInt32LE buffer offset) (\<lambda>level. Inr (level, offset + 4)))
                   [0..<traceDepth] buffer (offset + 1))
          (\<lambda>(shape, offset).
        Inr \<lparr> evRoot = root,
              evProof = evProofInfo,
              ldProof = \<lparr> lcRoot = lcRootBuffer, lcProof = lcProofInfo,
                          components = friComponents, remainder = friRemainder \<rparr>,
              traceShape = shape \<rparr>))))))))))"

lemma parseProof_reader: "parseProof this junk buffer = proofReader this junk buffer 0"
  by (cases "copyFrom junk buffer 0 (hashDigestSize this)")
    (simp_all add: parseProof_def proofReader_def readBuffer_def Let_def split: prod.splits)

text \<open>
  The arrays of a proof that \<open>sizeOf\<close> accepts: every Merkle proof has a value, and the
  remainder has at most 256 elements.
\<close>

definition sizedArrays :: "starkProof \<Rightarrow> bool" where
  "sizedArrays prf \<longleftrightarrow>
     values (evProof prf) \<noteq> [] \<and> values (lcProof (ldProof prf)) \<noteq> []
     \<and> list_all (\<lambda>c. values (columnProof c) \<noteq> [] \<and> values (polyProof c) \<noteq> [])
          (components (ldProof prf))
     \<and> length (remainder (ldProof prf)) \<le> 256"

lemma yields_proofReader:
  assumes fits: "fitsProof prf" and wf: "wellFormedProof this prf"
    and sized: "sizedArrays prf"
    and bound: "list_all (\<lambda>v. v < 256 ^ fieldElementSize this) (remainder (ldProof prf))"
  shows "yields (proofReader this junk) (encodeProof this prf) prf"
proof -
  let ?h = "hashDigestSize this"
  let ?n = "fieldElementSize this"
  let ?ev = "getValueCount_proof this * fieldElementSize this"
  let ?ld = "fieldElementSize this * 4"
  let ?mk = "\<lambda>root evp lcr lcp cs r shape.
      \<lparr> evRoot = root, evProof = evp,
        ldProof = \<lparr> lcRoot = lcr, lcProof = lcp, components = cs, remainder = r \<rparr>,
        traceShape = shape \<rparr>"
  let ?lvl = "\<lambda>i buffer offset.
      andThen (readUInt32LE buffer offset) (\<lambda>level. Inr (level, offset + 4))"
  let ?R9 = "\<lambda>root evp lcr lcp cs r traceDepth buffer offset.
      andThen (readEach ?lvl [0..<traceDepth] buffer offset)
        (\<lambda>(shape, offset). Inr (?mk root evp lcr lcp cs r shape))"
  let ?R8 = "\<lambda>root evp lcr lcp cs r buffer offset.
      andThen (readUInt8 buffer offset) (\<lambda>traceDepth.
        ?R9 root evp lcr lcp cs r traceDepth buffer (offset + 1))"
  let ?R7 = "\<lambda>root evp lcr lcp cs buffer offset.
      andThen (parseRemainder ?n buffer offset) (\<lambda>(r, offset).
        ?R8 root evp lcr lcp cs r buffer offset)"
  let ?R6 = "\<lambda>root evp lcr lcp componentCount buffer offset.
      andThen (readEach (\<lambda>i. parseComponent this junk ?ld) [0..<componentCount] buffer offset)
        (\<lambda>(cs, offset). ?R7 root evp lcr lcp cs buffer offset)"
  let ?R5 = "\<lambda>root evp lcr lcp buffer offset.
      andThen (readUInt8 buffer offset) (\<lambda>componentCount.
        ?R6 root evp lcr lcp componentCount buffer (offset + 1))"
  let ?R4 = "\<lambda>root evp lcr buffer offset.
      andThen (readMerkleProof junk buffer offset ?ld ?h) (\<lambda>(lcp, offset).
        ?R5 root evp lcr lcp buffer offset)"
  let ?R3 = "\<lambda>root evp buffer offset.
      andThen (readBuffer junk ?h buffer offset) (\<lambda>(lcr, offset).
        ?R4 root evp lcr buffer offset)"
  let ?R2 = "\<lambda>root buffer offset.
      andThen (readMerkleProof junk buffer offset ?ev ?h) (\<lambda>(evp, offset).
        ?R3 root evp buffer offset)"
  let ?R1 = "\<lambda>buffer offset.
      andThen (readBuffer junk ?h buffer offset) (\<lambda>(root, offset). ?R2 root buffer offset)"
  let ?l = "ldProof prf"
  have eq: "?mk (evRoot prf) (evProof prf) (lcRoot ?l) (lcProof ?l) (components ?l)
      (remainder ?l) (traceShape prf) = prf"
    by simp
  have f: "fitsMerkleProof (evProof prf)" "fitsMerkleProof (lcProof ?l)"
    "length (components ?l) \<le> 255"
    "list_all (\<lambda>c. fitsMerkleProof (columnProof c) \<and> fitsMerkleProof (polyProof c))
       (components ?l)"
    "length (traceShape prf) \<le> 255"
    "list_all (\<lambda>level. level \<le> 4294967295) (traceShape prf)"
    using fits unfolding fitsProof_def by blast+
  have w: "length (evRoot prf) = ?h" "wellFormedMerkleProof ?ev ?h (evProof prf)"
    "length (lcRoot ?l) = ?h" "wellFormedMerkleProof ?ld ?h (lcProof ?l)"
    "list_all (\<lambda>c. length (columnRoot c) = ?h
                  \<and> wellFormedMerkleProof ?ld ?h (columnProof c)
                  \<and> wellFormedMerkleProof ?ld ?h (polyProof c)) (components ?l)"
    using wf unfolding wellFormedProof_def rootsOfDigestSize_def list_all_iff by blast+
  have v: "values (evProof prf) \<noteq> []" "values (lcProof ?l) \<noteq> []"
    "list_all (\<lambda>c. values (columnProof c) \<noteq> [] \<and> values (polyProof c) \<noteq> [])
       (components ?l)"
    using sized unfolding sizedArrays_def by blast+
  have rem: "remainder ?l \<noteq> []" "length (remainder ?l) \<le> 256"
    using wf sized unfolding wellFormedProof_def sizedArrays_def by blast+
  have 9: "yields (?R9 (evRoot prf) (evProof prf) (lcRoot ?l) (lcProof ?l) (components ?l)
        (remainder ?l) (length (traceShape prf)))
      (concat (map (littleEndian 4) (traceShape prf))) prf"
    using yields_final [OF reads_traceShape [OF f(6)],
        of "?mk (evRoot prf) (evProof prf) (lcRoot ?l) (lcProof ?l) (components ?l) (remainder ?l)"]
    unfolding eq .
  have 8: "yields (?R8 (evRoot prf) (evProof prf) (lcRoot ?l) (lcProof ?l) (components ?l)
        (remainder ?l))
      ([of_nat (length (traceShape prf))] @ concat (map (littleEndian 4) (traceShape prf))) prf"
    using f(5) 9
    by (rule yields_uint8_bind [where ?r2.0 = "?R9 (evRoot prf) (evProof prf) (lcRoot ?l)
        (lcProof ?l) (components ?l) (remainder ?l)"])
  have 7: "yields (?R7 (evRoot prf) (evProof prf) (lcRoot ?l) (lcProof ?l) (components ?l))
      (encodeRemainder ?n (remainder ?l)
        @ [of_nat (length (traceShape prf))] @ concat (map (littleEndian 4) (traceShape prf)))
      prf"
    using reads_parseRemainder [OF rem bound] 8
    by (rule yields_bind [where ?r2.0 = "?R8 (evRoot prf) (evProof prf) (lcRoot ?l)
        (lcProof ?l) (components ?l)"])
  have 6: "yields (?R6 (evRoot prf) (evProof prf) (lcRoot ?l) (lcProof ?l)
        (length (components ?l)))
      (concat (map encodeComponent (components ?l)) @ encodeRemainder ?n (remainder ?l)
        @ [of_nat (length (traceShape prf))] @ concat (map (littleEndian 4) (traceShape prf)))
      prf"
    using reads_components [OF f(4) w(5) v(3)] 7
    by (rule yields_bind [where ?r2.0 = "?R7 (evRoot prf) (evProof prf) (lcRoot ?l)
        (lcProof ?l)"])
  have 5: "yields (?R5 (evRoot prf) (evProof prf) (lcRoot ?l) (lcProof ?l))
      ([of_nat (length (components ?l))] @ concat (map encodeComponent (components ?l))
        @ encodeRemainder ?n (remainder ?l)
        @ [of_nat (length (traceShape prf))] @ concat (map (littleEndian 4) (traceShape prf)))
      prf"
    using f(3) 6
    by (rule yields_uint8_bind [where ?r2.0 = "?R6 (evRoot prf) (evProof prf) (lcRoot ?l)
        (lcProof ?l)"])
  have 4: "yields (?R4 (evRoot prf) (evProof prf) (lcRoot ?l))
      (encodeMerkleProof (lcProof ?l)
        @ [of_nat (length (components ?l))] @ concat (map encodeComponent (components ?l))
        @ encodeRemainder ?n (remainder ?l)
        @ [of_nat (length (traceShape prf))] @ concat (map (littleEndian 4) (traceShape prf)))
      prf"
    using reads_readMerkleProof [OF f(2) w(4) v(2)] 5
    by (rule yields_bind [where ?r2.0 = "?R5 (evRoot prf) (evProof prf) (lcRoot ?l)"])
  have 3: "yields (?R3 (evRoot prf) (evProof prf))
      (lcRoot ?l @ encodeMerkleProof (lcProof ?l)
        @ [of_nat (length (components ?l))] @ concat (map encodeComponent (components ?l))
        @ encodeRemainder ?n (remainder ?l)
        @ [of_nat (length (traceShape prf))] @ concat (map (littleEndian 4) (traceShape prf)))
      prf"
    using reads_readBuffer [OF w(3)] 4
    by (rule yields_bind [where ?r2.0 = "?R4 (evRoot prf) (evProof prf)"])
  have 2: "yields (?R2 (evRoot prf))
      (encodeMerkleProof (evProof prf) @ lcRoot ?l @ encodeMerkleProof (lcProof ?l)
        @ [of_nat (length (components ?l))] @ concat (map encodeComponent (components ?l))
        @ encodeRemainder ?n (remainder ?l)
        @ [of_nat (length (traceShape prf))] @ concat (map (littleEndian 4) (traceShape prf)))
      prf"
    using reads_readMerkleProof [OF f(1) w(2) v(1)] 3
    by (rule yields_bind [where ?r2.0 = "?R3 (evRoot prf)"])
  have 1: "yields ?R1
      (evRoot prf @ encodeMerkleProof (evProof prf) @ lcRoot ?l @ encodeMerkleProof (lcProof ?l)
        @ [of_nat (length (components ?l))] @ concat (map encodeComponent (components ?l))
        @ encodeRemainder ?n (remainder ?l)
        @ [of_nat (length (traceShape prf))] @ concat (map (littleEndian 4) (traceShape prf)))
      prf"
    using reads_readBuffer [OF w(1)] 2
    by (rule yields_bind [where ?r2.0 = "?R2"])
  then show ?thesis
    unfolding proofReader_def encodeProof_def encodeTraceShape_def by simp
qed

lemma parseProof_encode:
  assumes "fitsProof prf" "wellFormedProof this prf" "sizedArrays prf"
    and "list_all (\<lambda>v. v < 256 ^ fieldElementSize this) (remainder (ldProof prf))"
  shows "parseProof this junk (encodeProof this prf) = Inr prf"
  using yieldsD [OF yields_proofReader [OF assms], of junk "[]" "[]"]
  by (simp add: parseProof_reader)

text \<open>The proof with its remainder reduced has the same wire format.\<close>

lemma littleEndian_mod: "littleEndian n (v mod 256 ^ n) = littleEndian n v"
proof (induction n arbitrary: v)
  case 0
  show ?case by simp
next
  case (Suc n)
  have "v mod (256 * 256 ^ n) mod 256 = v mod 256"
    by (simp add: mod_mod_cancel)
  moreover have "v mod (256 * 256 ^ n) div 256 = (v div 256) mod 256 ^ n"
    by (simp add: mod_mult2_eq)
  ultimately show ?case using Suc.IH [of "v div 256"] by simp
qed

lemma encodeRemainder_mod:
  "encodeRemainder n (map (\<lambda>v. v mod 256 ^ n) array) = encodeRemainder n array"
  by (simp add: encodeRemainder_def littleEndian_mod comp_def)

lemma reduceRemainder_simps:
  "evRoot (reduceRemainder this prf) = evRoot prf"
  "evProof (reduceRemainder this prf) = evProof prf"
  "traceShape (reduceRemainder this prf) = traceShape prf"
  "lcRoot (ldProof (reduceRemainder this prf)) = lcRoot (ldProof prf)"
  "lcProof (ldProof (reduceRemainder this prf)) = lcProof (ldProof prf)"
  "components (ldProof (reduceRemainder this prf)) = components (ldProof prf)"
  "remainder (ldProof (reduceRemainder this prf))
     = map (\<lambda>v. v mod 256 ^ fieldElementSize this) (remainder (ldProof prf))"
  by (simp_all add: reduceRemainder_def)

lemma reduceRemainder_encode:
  "encodeProof this (reduceRemainder this prf) = encodeProof this prf"
  by (simp add: encodeProof_def reduceRemainder_simps encodeRemainder_mod)

lemma reduceRemainder_fits: "fitsProof (reduceRemainder this prf) = fitsProof prf"
  by (simp add: fitsProof_def reduceRemainder_simps)

lemma reduceRemainder_wellFormed:
  "wellFormedProof this (reduceRemainder this prf) = wellFormedProof this prf"
  by (simp add: wellFormedProof_def rootsOfDigestSize_def reduceRemainder_simps)

lemma reduceRemainder_roots:
  "rootsOfDigestSize this (reduceRemainder this prf) = rootsOfDigestSize this prf"
  by (simp add: rootsOfDigestSize_def reduceRemainder_simps)

lemma reduceRemainder_sized: "sizedArrays (reduceRemainder this prf) = sizedArrays prf"
  by (simp add: sizedArrays_def reduceRemainder_simps)

lemma reduceRemainder_sizeOf:
  "sizeOf (reduceRemainder this prf) n h = sizeOf prf n h"
  by (simp add: sizeOf_def sizeOfRemainder_def reduceRemainder_simps)

lemma reduceRemainder_bound:
  "list_all (\<lambda>v. v < 256 ^ fieldElementSize this)
     (remainder (ldProof (reduceRemainder this prf)))"
  by (simp add: reduceRemainder_simps list_all_iff)

lemma reduceRemainder_id:
  assumes "list_all (\<lambda>v. v < 256 ^ fieldElementSize this) (remainder (ldProof prf))"
  shows "reduceRemainder this prf = prf"
proof -
  have "map (\<lambda>v. v mod 256 ^ fieldElementSize this) (remainder (ldProof prf))
      = remainder (ldProof prf)"
    using assms by (simp add: list_all_iff map_idI)
  then show ?thesis by (simp add: reduceRemainder_def)
qed

lemma parseProof_encode_reduced:
  assumes "fitsProof prf" "wellFormedProof this prf" "sizedArrays prf"
  shows "parseProof this junk (encodeProof this prf) = Inr (reduceRemainder this prf)"
  using parseProof_encode [of "reduceRemainder this prf" this junk] assms
  by (simp add: reduceRemainder_fits reduceRemainder_wellFormed reduceRemainder_sized
      reduceRemainder_bound reduceRemainder_encode)

subsection \<open>An example proof\<close>

text \<open>
  A small proof for a serializer with one-byte field elements and two-byte digests, and
  its serialization.
\<close>

definition exampleSerializer :: proofSerializer where
  "exampleSerializer = \<lparr> fieldElementSize = 1, stateWidth = 1, iRegisterCount = 0,
     sRegisterCount = 0, hashDigestSize = 2 \<rparr>"

definition exampleProof :: starkProof where
  "exampleProof = \<lparr>
     evRoot = [1, 2],
     evProof = \<lparr> values = [[9]], nodes = [[[3, 4]]], depth = 1 \<rparr>,
     ldProof = \<lparr>
       lcRoot = [5, 6],
       lcProof = \<lparr> values = [[1, 1, 1, 1]], nodes = [[]], depth = 2 \<rparr>,
       components = [\<lparr> columnRoot = [7, 8],
                       columnProof = \<lparr> values = [[2, 2, 2, 2]], nodes = [], depth = 0 \<rparr>,
                       polyProof = \<lparr> values = [[3, 3, 3, 3]], nodes = [], depth = 0 \<rparr> \<rparr>],
       remainder = [7, 200] \<rparr>,
     traceShape = [3] \<rparr>"

definition exampleBytes :: buffer where
  "exampleBytes = [1, 2, 1, 9, 1, 1, 3, 4, 1, 5, 6, 1, 1, 1, 1, 1, 1, 0, 2,
     1, 7, 8, 1, 2, 2, 2, 2, 0, 0, 1, 3, 3, 3, 3, 0, 0, 2, 7, 200, 1, 3, 0, 0, 0]"

lemma example_fits: "fitsProof exampleProof"
  by (simp add: exampleProof_def fitsProof_def fitsMerkleProof_def)

lemma example_roots: "rootsOfDigestSize exampleSerializer exampleProof"
  by (simp add: exampleProof_def exampleSerializer_def rootsOfDigestSize_def)

lemma example_sizeOf:
  "sizeOf exampleProof (fieldElementSize exampleSerializer) (hashDigestSize exampleSerializer)
     = Inr \<lparr> total = 44 \<rparr>"
proof -
  note defs = sizeOfMerkleProof_def sizeOfArray_def sizeOfMatrix_def addLengths_sum
    MAX_ARRAY_LENGTH_def MAX_MATRIX_COLUMN_LENGTH_def
  have ev: "sizeOfMerkleProof (evProof exampleProof) = Inr 7"
    by (simp add: exampleProof_def defs)
  have lc: "sizeOfMerkleProof (lcProof (ldProof exampleProof)) = Inr 8"
    by (simp add: exampleProof_def defs)
  have cs: "sizeOfComponents 2 (components (ldProof exampleProof)) = Inr 16"
    by (simp add: exampleProof_def defs)
  have r: "sizeOfRemainder (remainder (ldProof exampleProof)) 1 = Inr 3"
    by (simp add: exampleProof_def sizeOfRemainder_def MAX_ARRAY_LENGTH_def)
  have t: "length (traceShape exampleProof) = 1"
    by (simp add: exampleProof_def)
  have c: "fieldElementSize exampleSerializer = 1" "hashDigestSize exampleSerializer = 2"
    by (simp_all add: exampleSerializer_def)
  show ?thesis
    unfolding sizeOf_def c ev lc cs r t by simp
qed

lemma littleEndian_numeral:
  "littleEndian (numeral k) v = of_nat (v mod 256) # littleEndian (pred_numeral k) (v div 256)"
proof -
  have "littleEndian (numeral k) v = littleEndian (Suc (pred_numeral k)) v"
    by (simp only: numeral_eq_Suc)
  then show ?thesis by simp
qed

lemma littleEndian_example: "littleEndian 4 3 = [3, 0, 0, 0]"
  by (simp add: littleEndian_numeral)

lemma example_encode: "encodeProof exampleSerializer exampleProof = exampleBytes"
  by (simp add: littleEndian_example exampleProof_def exampleSerializer_def exampleBytes_def encodeProof_def
      encodeMerkleProof_def encodeArray_def encodeMatrix_def encodeComponent_def
      encodeRemainder_def encodeTraceShape_def)

lemma example_serialize:
  "serializeProof exampleSerializer junk exampleProof = Inr exampleBytes"
  using encode_serializeProof [OF example_fits example_roots example_sizeOf]
  by (simp add: example_encode)

lemma sizeOfComponents_values:
  "sizeOfComponents digestSize cs = Inr n \<Longrightarrow> c \<in> set cs
   \<Longrightarrow> values (columnProof c) \<noteq> [] \<and> values (polyProof c) \<noteq> []"
proof (induction cs arbitrary: n)
  case Nil
  then show ?case by simp
next
  case (Cons d cs)
  from Cons.prems(1) obtain a b rest where
    a: "sizeOfMerkleProof (columnProof d) = Inr a"
    and b: "sizeOfMerkleProof (polyProof d) = Inr b"
    and rest: "sizeOfComponents digestSize cs = Inr rest"
    unfolding sizeOfComponents.simps andThen_Inr by auto
  show ?case
  proof (cases "c = d")
    case True
    then show ?thesis using sizeOfMerkleProof_Inr [OF a] sizeOfMerkleProof_Inr [OF b] by simp
  next
    case False
    with Cons.prems(2) have "c \<in> set cs" by simp
    with Cons.IH [OF rest] show ?thesis by blast
  qed
qed

lemma sizeOf_arrays:
  assumes "sizeOf prf n h = Inr sz"
  shows "values (evProof prf) \<noteq> []" "values (lcProof (ldProof prf)) \<noteq> []"
    "\<forall>c\<in>set (components (ldProof prf)).
       values (columnProof c) \<noteq> [] \<and> values (polyProof c) \<noteq> []"
    "length (remainder (ldProof prf)) \<le> 256"
proof -
  from assms obtain ev lc levels r where
    ev: "sizeOfMerkleProof (evProof prf) = Inr ev"
    and lc: "sizeOfMerkleProof (lcProof (ldProof prf)) = Inr lc"
    and levels: "sizeOfComponents h (components (ldProof prf)) = Inr levels"
    and r: "sizeOfRemainder (remainder (ldProof prf)) n = Inr r"
    unfolding sizeOf_def andThen_Inr by auto
  show "values (evProof prf) \<noteq> []" using sizeOfMerkleProof_Inr [OF ev] by simp
  show "values (lcProof (ldProof prf)) \<noteq> []" using sizeOfMerkleProof_Inr [OF lc] by simp
  show "\<forall>c\<in>set (components (ldProof prf)).
       values (columnProof c) \<noteq> [] \<and> values (polyProof c) \<noteq> []"
    using sizeOfComponents_values [OF levels] by blast
  show "length (remainder (ldProof prf)) \<le> 256"
    using sizeOfRemainder_Inr [OF r] by simp
qed

lemma sizeOf_sizedArrays:
  assumes "sizeOf prf n h = Inr sz"
  shows "sizedArrays prf"
  using sizeOf_arrays [OF assms] unfolding sizedArrays_def list_all_iff by blast

subsection \<open>Round trip\<close>

text \<open>A proof that is well formed for the example serializer, and its serialization.\<close>

definition roundTripProof :: starkProof where
  "roundTripProof = \<lparr>
     evRoot = [1, 2],
     evProof = \<lparr> values = [[9]], nodes = [[[3, 4]]], depth = 1 \<rparr>,
     ldProof = \<lparr>
       lcRoot = [5, 6],
       lcProof = \<lparr> values = [[1, 1, 1, 1]], nodes = [[]], depth = 2 \<rparr>,
       components = [\<lparr> columnRoot = [7, 8],
                       columnProof = \<lparr> values = [[2, 2, 2, 2]], nodes = [[]], depth = 0 \<rparr>,
                       polyProof = \<lparr> values = [[3, 3, 3, 3]], nodes = [[]], depth = 0 \<rparr> \<rparr>],
       remainder = [7, 200] \<rparr>,
     traceShape = [3] \<rparr>"

definition roundTripBytes :: buffer where
  "roundTripBytes = [1, 2, 1, 9, 1, 1, 3, 4, 1, 5, 6, 1, 1, 1, 1, 1, 1, 0, 2,
     1, 7, 8, 1, 2, 2, 2, 2, 1, 0, 0, 1, 3, 3, 3, 3, 1, 0, 0, 2, 7, 200, 1, 3, 0, 0, 0]"

lemma roundTrip_fits: "fitsProof roundTripProof"
  by (simp add: roundTripProof_def fitsProof_def fitsMerkleProof_def)

lemma roundTrip_wellFormed: "wellFormedProof exampleSerializer roundTripProof"
  by (simp add: roundTripProof_def exampleSerializer_def wellFormedProof_def
      rootsOfDigestSize_def wellFormedMerkleProof_def getValueCount_proof_def)

lemma roundTrip_bound:
  "list_all (\<lambda>v. v < 256 ^ fieldElementSize exampleSerializer)
     (remainder (ldProof roundTripProof))"
  by (simp add: roundTripProof_def exampleSerializer_def)

lemma roundTrip_sizeOf:
  "sizeOf roundTripProof (fieldElementSize exampleSerializer)
     (hashDigestSize exampleSerializer) = Inr \<lparr> total = 46 \<rparr>"
proof -
  note defs = sizeOfMerkleProof_def sizeOfArray_def sizeOfMatrix_def addLengths_sum
    MAX_ARRAY_LENGTH_def MAX_MATRIX_COLUMN_LENGTH_def
  have ev: "sizeOfMerkleProof (evProof roundTripProof) = Inr 7"
    by (simp add: roundTripProof_def defs)
  have lc: "sizeOfMerkleProof (lcProof (ldProof roundTripProof)) = Inr 8"
    by (simp add: roundTripProof_def defs)
  have cs: "sizeOfComponents 2 (components (ldProof roundTripProof)) = Inr 18"
    by (simp add: roundTripProof_def defs)
  have r: "sizeOfRemainder (remainder (ldProof roundTripProof)) 1 = Inr 3"
    by (simp add: roundTripProof_def sizeOfRemainder_def MAX_ARRAY_LENGTH_def)
  have t: "length (traceShape roundTripProof) = 1"
    by (simp add: roundTripProof_def)
  have c: "fieldElementSize exampleSerializer = 1" "hashDigestSize exampleSerializer = 2"
    by (simp_all add: exampleSerializer_def)
  show ?thesis
    unfolding sizeOf_def c ev lc cs r t by simp
qed

lemma roundTrip_encode: "encodeProof exampleSerializer roundTripProof = roundTripBytes"
  by (simp add: littleEndian_example roundTripProof_def exampleSerializer_def
      roundTripBytes_def encodeProof_def encodeMerkleProof_def encodeArray_def
      encodeMatrix_def encodeComponent_def encodeRemainder_def encodeTraceShape_def)

lemma roundTrip_serialize:
  "serializeProof exampleSerializer junk roundTripProof = Inr roundTripBytes"
  using encode_serializeProof [OF roundTrip_fits _ roundTrip_sizeOf] roundTrip_wellFormed
  by (simp add: roundTrip_encode wellFormedProof_def)

lemma example_sizes:
  "fieldElementSize exampleSerializer = 1" "hashDigestSize exampleSerializer = 2"
  by (simp_all add: exampleSerializer_def)

text \<open>
  A well-formed proof with 256 values, 256 columns of nodes and 256 elements in the
  remainder, the most that the format admits.
\<close>

definition fullArraysProof :: starkProof where
  "fullArraysProof = \<lparr>
     evRoot = [1, 2],
     evProof = \<lparr> values = replicate 256 [9], nodes = replicate 256 [], depth = 8 \<rparr>,
     ldProof = \<lparr>
       lcRoot = [5, 6],
       lcProof = \<lparr> values = [[1, 1, 1, 1]], nodes = [[]], depth = 0 \<rparr>,
       components = [],
       remainder = replicate 256 7 \<rparr>,
     traceShape = [] \<rparr>"

lemma sizeOfColumns_empty: "sizeOfColumns sz (replicate k []) = Inr sz"
  by (induction k) (simp_all add: addLengths_def MAX_MATRIX_COLUMN_LENGTH_def)

lemma fullArrays_lengths:
  "length (values (evProof fullArraysProof)) = 256"
  "length (nodes (evProof fullArraysProof)) = 256"
  "length (remainder (ldProof fullArraysProof)) = 256"
  by (simp_all add: fullArraysProof_def)

lemma fullArrays_fits: "fitsProof fullArraysProof"
  by (simp add: fullArraysProof_def fitsProof_def fitsMerkleProof_def list_all_iff)

lemma fullArrays_wellFormed: "wellFormedProof exampleSerializer fullArraysProof"
  by (simp add: fullArraysProof_def exampleSerializer_def wellFormedProof_def
      rootsOfDigestSize_def wellFormedMerkleProof_def getValueCount_proof_def list_all_iff)

lemma fullArrays_bound:
  "list_all (\<lambda>v. v < 256 ^ fieldElementSize exampleSerializer)
     (remainder (ldProof fullArraysProof))"
  by (simp add: fullArraysProof_def exampleSerializer_def list_all_iff)

lemma fullArrays_sizeOf:
  "\<exists>sz. sizeOf fullArraysProof (fieldElementSize exampleSerializer)
     (hashDigestSize exampleSerializer) = Inr sz"
proof -
  have ev: "sizeOfMerkleProof (evProof fullArraysProof)
      = Inr (0 + addLengths 1 (replicate 256 [9 :: byte]) + 257 + 1)"
    by (simp add: fullArraysProof_def sizeOfMerkleProof_def sizeOfArray_def sizeOfMatrix_def
        MAX_ARRAY_LENGTH_def sizeOfColumns_empty)
  have lc: "sizeOfMerkleProof (lcProof (ldProof fullArraysProof)) = Inr 8"
    by (simp add: fullArraysProof_def sizeOfMerkleProof_def sizeOfArray_def sizeOfMatrix_def
        addLengths_sum MAX_ARRAY_LENGTH_def MAX_MATRIX_COLUMN_LENGTH_def)
  have cs: "sizeOfComponents 2 (components (ldProof fullArraysProof)) = Inr 0"
    by (simp add: fullArraysProof_def)
  have r: "sizeOfRemainder (remainder (ldProof fullArraysProof)) 1 = Inr 257"
    by (simp add: fullArraysProof_def sizeOfRemainder_def MAX_ARRAY_LENGTH_def)
  show ?thesis
    unfolding sizeOf_def example_sizes ev lc cs r by simp
qed

lemma fullArrays_serialize:
  "serializeProof exampleSerializer junk fullArraysProof
     = Inr (encodeProof exampleSerializer fullArraysProof)"
proof -
  from fullArrays_sizeOf obtain sz where
    sz: "sizeOf fullArraysProof (fieldElementSize exampleSerializer)
      (hashDigestSize exampleSerializer) = Inr sz" ..
  have roots: "rootsOfDigestSize exampleSerializer fullArraysProof"
    using fullArrays_wellFormed unfolding wellFormedProof_def by blast
  show ?thesis
    using fullArrays_fits roots sz by (rule encode_serializeProof)
qed

text \<open>
  Claim C1, amended. For every proof object that \<open>serializeProof\<close> accepts and that is well
  formed for the serializer (roots and nodes of \<open>hashDigestSize\<close> bytes, leaves of the
  leaf size of their tree, a column of nodes in every Merkle proof and an element in the
  remainder), \<open>parseProof\<close> on the serialized bytes returns the proof, with its \<open>evRoot\<close>,
  \<open>evProof\<close>, \<open>lcRoot\<close>, \<open>lcProof\<close>, FRI components, remainder and trace shape, the
  elements of the remainder reduced to \<open>fieldElementSize\<close> bytes, and serializing the
  parsed proof returns the same bytes, whatever the unset memory of the buffers holds.
  When the remainder holds elements below \<open>256 ^ fieldElementSize\<close>, the parsed proof is
  the proof itself.
\<close>

theorem serialize_parse_roundtrip:
  assumes "serializeProof this junk prf = Inr buffer" and "wellFormedProof this prf"
  shows "parseProof this junk' buffer = Inr (reduceRemainder this prf)
     \<and> andThen (parseProof this junk' buffer) (serializeProof this junk'') = Inr buffer
     \<and> (list_all (\<lambda>v. v < 256 ^ fieldElementSize this) (remainder (ldProof prf))
          \<longrightarrow> parseProof this junk' buffer = Inr prf)"
proof -
  have roots: "rootsOfDigestSize this prf"
    using assms(2) unfolding wellFormedProof_def by blast
  note enc = serializeProof_encode [OF assms(1) roots]
  from enc(3) obtain sz where
    sz: "sizeOf prf (fieldElementSize this) (hashDigestSize this) = Inr sz" ..
  have parse: "parseProof this junk' buffer = Inr (reduceRemainder this prf)"
    unfolding enc(1)
    using enc(2) assms(2) sizeOf_sizedArrays [OF sz] by (rule parseProof_encode_reduced)
  have "serializeProof this junk'' (reduceRemainder this prf)
      = Inr (encodeProof this (reduceRemainder this prf))"
    using enc(2) roots sz
    by (intro encode_serializeProof [where sz = sz])
      (simp_all add: reduceRemainder_fits reduceRemainder_roots reduceRemainder_sizeOf)
  then have again: "serializeProof this junk'' (reduceRemainder this prf) = Inr buffer"
    unfolding enc(1) by (simp add: reduceRemainder_encode)
  show ?thesis
    using parse again by (simp add: reduceRemainder_id)
qed

theorem serialize_parse_roundtrip_witness:
  "serializeProof exampleSerializer (\<lambda>i. 0) roundTripProof = Inr roundTripBytes
   \<and> parseProof exampleSerializer (\<lambda>i. 1) roundTripBytes = Inr roundTripProof
   \<and> andThen (parseProof exampleSerializer (\<lambda>i. 1) roundTripBytes)
        (serializeProof exampleSerializer (\<lambda>i. 2)) = Inr roundTripBytes
   \<and> length (values (evProof fullArraysProof)) = 256
   \<and> length (nodes (evProof fullArraysProof)) = 256
   \<and> length (remainder (ldProof fullArraysProof)) = 256
   \<and> serializeProof exampleSerializer (\<lambda>i. 0) fullArraysProof
        = Inr (encodeProof exampleSerializer fullArraysProof)
   \<and> parseProof exampleSerializer (\<lambda>i. 1) (encodeProof exampleSerializer fullArraysProof)
        = Inr fullArraysProof
   \<and> andThen (parseProof exampleSerializer (\<lambda>i. 1)
                 (encodeProof exampleSerializer fullArraysProof))
        (serializeProof exampleSerializer (\<lambda>i. 2))
        = Inr (encodeProof exampleSerializer fullArraysProof)"
  using serialize_parse_roundtrip [OF roundTrip_serialize [where junk = "\<lambda>i. 0"]
      roundTrip_wellFormed, where junk' = "\<lambda>i. 1" and junk'' = "\<lambda>i. 2"]
    serialize_parse_roundtrip [OF fullArrays_serialize [where junk = "\<lambda>i. 0"]
      fullArrays_wellFormed, where junk' = "\<lambda>i. 1" and junk'' = "\<lambda>i. 2"]
    roundTrip_serialize [where junk = "\<lambda>i. 0"] roundTrip_bound
    fullArrays_serialize [where junk = "\<lambda>i. 0"] fullArrays_bound fullArrays_lengths
  by blast

text \<open>
  \<open>serializeProof\<close> checks no size of a root: a proof with a root of fewer bytes is written
  into a buffer that is longer than its wire format, and the bytes after the wire format
  keep what the memory held.
\<close>

lemma serializeProof_slack:
  assumes "fitsProof prf"
    and "sizeOf prf (fieldElementSize this) (hashDigestSize this) = Inr sz"
    and "length (encodeProof this prf) \<le> total sz"
  shows "serializeProof this junk prf
     = Inr (encodeProof this prf @ map junk [length (encodeProof this prf)..<total sz])"
proof -
  have len: "0 + length (encodeProof this prf) \<le> length (allocUnsafe junk (total sz))"
    using assms(3) by simp
  have "writeAt (allocUnsafe junk (total sz)) 0 (encodeProof this prf)
      = encodeProof this prf @ map junk [length (encodeProof this prf)..<total sz]"
    by (simp add: writeAt_def allocUnsafe_def drop_map)
  then show ?thesis
    unfolding serializeProof_def serializeProofWith_writer assms(2)
    using writesD [OF writes_proofWriter [OF assms(1)] len]
    by simp
qed

text \<open>A count byte 0 stands for 256 entries, which a shorter buffer does not hold.\<close>

lemma readEach_uint8_short:
  "offset \<le> length buffer \<Longrightarrow> length buffer < offset + length ks
   \<Longrightarrow> readEach (\<lambda>i buffer offset.
          andThen (readUInt8 buffer offset) (\<lambda>columnLength. Inr (columnLength, offset + 1)))
        ks buffer offset = Inl RangeError"
proof (induction ks arbitrary: offset)
  case Nil
  then show ?case by simp
next
  case (Cons k ks)
  show ?case
  proof (cases "offset = length buffer")
    case True
    then show ?thesis by (simp add: readUInt8_def)
  next
    case False
    with Cons.prems have lt: "offset < length buffer" by simp
    then have "readEach (\<lambda>i buffer offset.
          andThen (readUInt8 buffer offset) (\<lambda>columnLength. Inr (columnLength, offset + 1)))
        ks buffer (offset + 1) = Inl RangeError"
      using Cons.prems by (intro Cons.IH) simp_all
    then show ?thesis using lt by (simp add: readUInt8_def)
  qed
qed

lemma readEach_bigInt_short:
  "length buffer < offset + length ks * n \<Longrightarrow> offset \<le> length buffer
   \<Longrightarrow> readEach (\<lambda>i buffer offset.
          andThen (readBigInt buffer offset n) (\<lambda>v. Inr (v, offset + n)))
        ks buffer offset = Inl RangeError"
proof (induction ks arbitrary: offset)
  case Nil
  then show ?case by simp
next
  case (Cons k ks)
  show ?case
  proof (cases "length buffer < offset + n")
    case True
    then show ?thesis by (simp add: readBigInt_def)
  next
    case False
    then have "readEach (\<lambda>i buffer offset.
          andThen (readBigInt buffer offset n) (\<lambda>v. Inr (v, offset + n)))
        ks buffer (offset + n) = Inl RangeError"
      using Cons.prems by (intro Cons.IH) (simp_all add: add.assoc)
    then show ?thesis using False by (simp add: readBigInt_def)
  qed
qed

lemma parseRemainder_short:
  assumes "readUInt8 buffer offset = Inr 0"
    and "length buffer < offset + 1 + MAX_ARRAY_LENGTH * n"
  shows "parseRemainder n buffer offset = Inl RangeError"
proof -
  have "offset + 1 \<le> length buffer"
    using assms(1) by (simp add: readUInt8_def split: if_splits)
  then have "readEach (\<lambda>i buffer offset.
        andThen (readBigInt buffer offset n) (\<lambda>v. Inr (v, offset + n)))
      [0..<MAX_ARRAY_LENGTH] buffer (offset + 1) = Inl RangeError"
    using assms(2) by (intro readEach_bigInt_short) simp_all
  then show ?thesis
    unfolding parseRemainder_def Let_def assms(1) by simp
qed

lemma readMatrix_short:
  assumes "readUInt8 buffer offset = Inr 0"
    and "length buffer < offset + 1 + MAX_ARRAY_LENGTH"
  shows "readMatrix junk n buffer offset = Inl RangeError"
proof -
  have "offset + 1 \<le> length buffer"
    using assms(1) by (simp add: readUInt8_def split: if_splits)
  then have "readEach (\<lambda>i buffer offset.
        andThen (readUInt8 buffer offset) (\<lambda>columnLength. Inr (columnLength, offset + 1)))
      [0..<MAX_ARRAY_LENGTH] buffer (offset + 1) = Inl RangeError"
    using assms(2) by (intro readEach_uint8_short) simp_all
  then show ?thesis
    unfolding readMatrix_def Let_def assms(1) by simp
qed

text \<open>
  Three proofs for the example serializer that \<open>serializeProof\<close> accepts: one with an
  \<open>evRoot\<close> of one byte, one without a column of nodes in \<open>evProof\<close>, and one with an empty
  remainder.
\<close>

definition shortRootProof :: starkProof where
  "shortRootProof = \<lparr>
     evRoot = [1],
     evProof = \<lparr> values = [[2]], nodes = [[]], depth = 0 \<rparr>,
     ldProof = \<lparr>
       lcRoot = [5, 6],
       lcProof = \<lparr> values = [[1, 1, 1, 1]], nodes = [[]], depth = 0 \<rparr>,
       components = [],
       remainder = [7] \<rparr>,
     traceShape = [] \<rparr>"

definition shortRootBytes :: "byte \<Rightarrow> buffer" where
  "shortRootBytes b = [1, 1, 2, 1, 0, 0, 5, 6, 1, 1, 1, 1, 1, 1, 0, 0, 0, 1, 7, 0, b]"

definition emptyNodesProof :: starkProof where
  "emptyNodesProof = \<lparr>
     evRoot = [1, 2],
     evProof = \<lparr> values = [[2]], nodes = [], depth = 0 \<rparr>,
     ldProof = \<lparr>
       lcRoot = [5, 6],
       lcProof = \<lparr> values = [[1, 1, 1, 1]], nodes = [[]], depth = 0 \<rparr>,
       components = [],
       remainder = [7] \<rparr>,
     traceShape = [] \<rparr>"

definition emptyNodesBytes :: buffer where
  "emptyNodesBytes = [1, 2, 1, 2, 0, 0, 5, 6, 1, 1, 1, 1, 1, 1, 0, 0, 0, 1, 7, 0]"

definition emptyRemainderProof :: starkProof where
  "emptyRemainderProof = \<lparr>
     evRoot = [1, 2],
     evProof = \<lparr> values = [[2]], nodes = [[]], depth = 0 \<rparr>,
     ldProof = \<lparr>
       lcRoot = [5, 6],
       lcProof = \<lparr> values = [[1, 1, 1, 1]], nodes = [[]], depth = 0 \<rparr>,
       components = [],
       remainder = [] \<rparr>,
     traceShape = [] \<rparr>"

definition emptyRemainderBytes :: buffer where
  "emptyRemainderBytes = [1, 2, 1, 2, 1, 0, 0, 5, 6, 1, 1, 1, 1, 1, 1, 0, 0, 0, 0, 0]"

lemmas size_defs = sizeOf_def sizeOfMerkleProof_def sizeOfArray_def sizeOfMatrix_def
  addLengths_sum MAX_ARRAY_LENGTH_def MAX_MATRIX_COLUMN_LENGTH_def sizeOfRemainder_def

lemmas encode_defs = encodeProof_def encodeMerkleProof_def encodeArray_def encodeMatrix_def
  encodeComponent_def encodeRemainder_def encodeTraceShape_def

lemmas parse_defs = parseProof_def copyFrom_def readMerkleProof_def readArray_def
  readBuffer_def readUInt8_def Let_def getValueCount_proof_def MAX_ARRAY_LENGTH_def
  upt_conv_Cons

lemma upt_20: "[20..<21] = [20::nat]"
  by (simp add: upt_rec)

lemma shortRoot_serialize:
  "serializeProof exampleSerializer junk shortRootProof = Inr (shortRootBytes (junk 20))"
proof -
  have enc: "encodeProof exampleSerializer shortRootProof = butlast (shortRootBytes 0)"
    by (simp add: shortRootProof_def exampleSerializer_def shortRootBytes_def encode_defs)
  have len: "length (encodeProof exampleSerializer shortRootProof) = 20"
    by (simp add: enc shortRootBytes_def)
  have fits: "fitsProof shortRootProof"
    by (simp add: shortRootProof_def fitsProof_def fitsMerkleProof_def)
  have sz: "sizeOf shortRootProof (fieldElementSize exampleSerializer)
      (hashDigestSize exampleSerializer) = Inr \<lparr> total = 21 \<rparr>"
    unfolding example_sizes by (simp add: shortRootProof_def size_defs)
  have "serializeProof exampleSerializer junk shortRootProof
      = Inr (encodeProof exampleSerializer shortRootProof
          @ map junk [length (encodeProof exampleSerializer shortRootProof)
                      ..<total \<lparr> total = 21 \<rparr>])"
    using fits sz by (rule serializeProof_slack) (simp add: len)
  then show ?thesis
    unfolding len by (simp add: upt_20 enc shortRootBytes_def)
qed

lemma shortRoot_parse:
  "parseProof exampleSerializer junk (shortRootBytes b) = Inl RangeError"
  by (simp add: exampleSerializer_def shortRootBytes_def parse_defs readMatrix_short)

lemma emptyNodes_serialize:
  "serializeProof exampleSerializer junk emptyNodesProof = Inr emptyNodesBytes"
proof -
  have enc: "encodeProof exampleSerializer emptyNodesProof = emptyNodesBytes"
    by (simp add: emptyNodesProof_def exampleSerializer_def emptyNodesBytes_def encode_defs)
  have fits: "fitsProof emptyNodesProof"
    by (simp add: emptyNodesProof_def fitsProof_def fitsMerkleProof_def)
  have roots: "rootsOfDigestSize exampleSerializer emptyNodesProof"
    by (simp add: emptyNodesProof_def exampleSerializer_def rootsOfDigestSize_def)
  have sz: "sizeOf emptyNodesProof (fieldElementSize exampleSerializer)
      (hashDigestSize exampleSerializer) = Inr \<lparr> total = 20 \<rparr>"
    unfolding example_sizes by (simp add: emptyNodesProof_def size_defs)
  show ?thesis
    using encode_serializeProof [OF fits roots sz] by (simp add: enc)
qed

lemma emptyNodes_parse:
  "parseProof exampleSerializer junk emptyNodesBytes = Inl RangeError"
  by (simp add: exampleSerializer_def emptyNodesBytes_def parse_defs readMatrix_short)

lemma emptyRemainder_serialize:
  "serializeProof exampleSerializer junk emptyRemainderProof = Inr emptyRemainderBytes"
proof -
  have enc: "encodeProof exampleSerializer emptyRemainderProof = emptyRemainderBytes"
    by (simp add: emptyRemainderProof_def exampleSerializer_def emptyRemainderBytes_def
        encode_defs)
  have fits: "fitsProof emptyRemainderProof"
    by (simp add: emptyRemainderProof_def fitsProof_def fitsMerkleProof_def)
  have roots: "rootsOfDigestSize exampleSerializer emptyRemainderProof"
    by (simp add: emptyRemainderProof_def exampleSerializer_def rootsOfDigestSize_def)
  have sz: "sizeOf emptyRemainderProof (fieldElementSize exampleSerializer)
      (hashDigestSize exampleSerializer) = Inr \<lparr> total = 20 \<rparr>"
    unfolding example_sizes by (simp add: emptyRemainderProof_def size_defs)
  show ?thesis
    using encode_serializeProof [OF fits roots sz] by (simp add: enc)
qed

lemma emptyRemainder_parse:
  "parseProof exampleSerializer junk emptyRemainderBytes = Inl RangeError"
  by (simp add: exampleSerializer_def emptyRemainderBytes_def parse_defs readMatrix_def
      parseRemainder_short)

text \<open>
  Claim C1 as stated fails for the proof with the short root: it is serialized, its last
  byte left as the memory held it, and the parser, which takes two bytes for the root,
  reads every later field one byte further on, takes the count of the nodes from a byte
  that is 0 and runs past the end of the buffer.
\<close>

theorem serialize_parse_roundtrip_counterexample:
  "serializeProof exampleSerializer (\<lambda>i. 0) shortRootProof = Inr (shortRootBytes 0)
   \<and> andThen (parseProof exampleSerializer (\<lambda>i. 0) (shortRootBytes 0))
        (serializeProof exampleSerializer (\<lambda>i. 0)) = Inl RangeError"
  by (simp add: shortRoot_serialize shortRoot_parse)

text \<open>
  The parser reads a count byte 0 as 256, so the round trip also needs a column of nodes
  in every Merkle proof and an element in the remainder.
\<close>

lemma emptyNodes_roundtrip_fails:
  "serializeProof exampleSerializer (\<lambda>i. 0) emptyNodesProof = Inr emptyNodesBytes
   \<and> andThen (parseProof exampleSerializer (\<lambda>i. 0) emptyNodesBytes)
        (serializeProof exampleSerializer (\<lambda>i. 0)) = Inl RangeError"
  by (simp add: emptyNodes_serialize emptyNodes_parse)

lemma emptyRemainder_roundtrip_fails:
  "serializeProof exampleSerializer (\<lambda>i. 0) emptyRemainderProof = Inr emptyRemainderBytes
   \<and> andThen (parseProof exampleSerializer (\<lambda>i. 0) emptyRemainderBytes)
        (serializeProof exampleSerializer (\<lambda>i. 0)) = Inl RangeError"
  by (simp add: emptyRemainder_serialize emptyRemainder_parse)

text \<open>
  Claim C7. The buffer that \<open>serializeProof\<close> returns has the length that \<open>sizeOf\<close> reports
  as the total for the proof. Lemma \<open>serializeProofWith_length\<close> shows it for any size
  function in the place of \<open>utils.sizeOf\<close>: the buffer is allocated with the total, and
  no write changes the length of a buffer.
\<close>

theorem serialized_length:
  assumes "serializeProof this junk prf = Inr buffer"
  shows "\<exists>sz. sizeOf prf (fieldElementSize this) (hashDigestSize this) = Inr sz
           \<and> length buffer = total sz"
  using assms unfolding serializeProof_def by (rule serializeProofWith_length)

theorem serialized_length_witness:
  "serializeProof exampleSerializer (\<lambda>i. 0) exampleProof = Inr exampleBytes
   \<and> sizeOf exampleProof 1 2 = Inr \<lparr> total = 44 \<rparr>
   \<and> length exampleBytes = 44"
  using serialized_length [OF example_serialize [where junk = "\<lambda>i. 0"]]
    example_serialize [where junk = "\<lambda>i. 0"] example_sizeOf
  by (simp add: exampleSerializer_def exampleBytes_def)


subsection \<open>The length byte of the remainder\<close>






subsection \<open>Empty arrays\<close>




end
